theory Spec2Isabelle
  imports Main "HOL-Library.AList" "HOL-Library.Sublist" "HOL-Library.Code_Target_Nat"
begin

section \<open>Strings and character classes\<close>

text \<open>
  Python strings are modelled as \<^typ>\<open>string\<close>: a character is a code point below 256
  (the access-log format is ASCII).  On that range the classes of Python's \<open>re\<close> module
  for \<open>str\<close> patterns are: \<open>\s\<close> = the code points 9..13, 28..32, 133 and 160;
  \<open>\d\<close> = the decimal digits 48..57.
\<close>

definition is_space :: "char \<Rightarrow> bool" where
  "is_space ch =
     (let n = (of_char ch :: nat)
      in (9 \<le> n \<and> n \<le> 13) \<or> (28 \<le> n \<and> n \<le> 32) \<or> n = 133 \<or> n = 160)"

definition is_digit :: "char \<Rightarrow> bool" where
  "is_digit ch = (let n = (of_char ch :: nat) in 48 \<le> n \<and> n \<le> 57)"

datatype cset =
    Chr char              \<comment> \<open>a literal character\<close>
  | Space                 \<comment> \<open>\<open>\s\<close>\<close>
  | NonSpace              \<comment> \<open>\<open>\S\<close>\<close>
  | Digit                 \<comment> \<open>\<open>\d\<close>\<close>
  | Except char           \<comment> \<open>\<open>[^c]\<close>\<close>
  | Range char char       \<comment> \<open>\<open>[a-b]\<close>\<close>
  | Union cset cset       \<comment> \<open>a class with several members, \<open>[a-z0-9]\<close>\<close>

fun cmatch :: "cset \<Rightarrow> char \<Rightarrow> bool" where
  "cmatch (Chr x) ch = (ch = x)"
| "cmatch Space ch = is_space ch"
| "cmatch NonSpace ch = (\<not> is_space ch)"
| "cmatch Digit ch = is_digit ch"
| "cmatch (Except x) ch = (ch \<noteq> x)"
| "cmatch (Range lo hi) ch =
     ((of_char lo :: nat) \<le> of_char ch \<and> (of_char ch :: nat) \<le> of_char hi)"
| "cmatch (Union a b) ch = (cmatch a ch \<or> cmatch b ch)"

section \<open>A backtracking matcher for the regular expressions the program uses\<close>

text \<open>
  The patterns of the program use single characters and classes, greedy repetition of a
  class (\<open>x+\<close>, \<open>x*\<close>, \<open>x?\<close>, \<open>x{1,6}\<close>), sequence, alternation and named groups.  The
  matcher tries the alternatives in the order of Python's \<open>re\<close>: a greedy repetition takes
  as many characters as it can and gives them back one at a time, the left branch of \<open>|\<close>
  comes before the right one.  The first alternative for which the rest of the pattern
  succeeds is the match.
\<close>

datatype regex =
    Atom cset
  | Rep cset nat "nat option"   \<comment> \<open>class, least count, greatest count (\<open>None\<close>: unbounded)\<close>
  | Seq "regex list"
  | Alt regex regex
  | Grp string regex            \<comment> \<open>\<open>(?P<name>...)\<close>\<close>

type_synonym captures = "string \<rightharpoonup> string"

fun may_take :: "nat option \<Rightarrow> bool" where
  "may_take None = True"
| "may_take (Some n) = (0 < n)"

fun less1 :: "nat option \<Rightarrow> nat option" where
  "less1 None = None"
| "less1 (Some n) = Some (n - 1)"

text \<open>The matcher works on a stack of the pattern parts still to be matched; \<open>Close n s\<close>
  marks the end of the group \<open>n\<close> that began when \<open>s\<close> was the text to be matched.\<close>

datatype item = R regex | Close string string

fun weight :: "regex \<Rightarrow> nat" where
  "weight (Atom cs) = 1"
| "weight (Rep cs lo hi) = 1"
| "weight (Seq rs) = Suc (sum_list (map weight rs))"
| "weight (Alt a b) = Suc (weight a + weight b)"
| "weight (Grp n r) = Suc (Suc (weight r))"

fun iweight :: "item \<Rightarrow> nat" where
  "iweight (R r) = weight r"
| "iweight (Close n s) = 1"

function exec :: "item list \<Rightarrow> string \<Rightarrow> captures \<Rightarrow> (string \<times> captures) option" where
  "exec [] s c = Some (s, c)"
| "exec (Close n s0 # k) s c = exec k s (c(n \<mapsto> take (length s0 - length s) s0))"
| "exec (R (Atom cs) # k) [] c = None"
| "exec (R (Atom cs) # k) (x # s) c = (if cmatch cs x then exec k s c else None)"
| "exec (R (Seq rs) # k) s c = exec (map R rs @ k) s c"
| "exec (R (Alt a b) # k) s c =
     (case exec (R a # k) s c of Some r \<Rightarrow> Some r | None \<Rightarrow> exec (R b # k) s c)"
| "exec (R (Grp n r) # k) s c = exec (R r # Close n s # k) s c"
| "exec (R (Rep cs lo hi) # k) [] c = (if lo = 0 then exec k [] c else None)"
| "exec (R (Rep cs lo hi) # k) (x # s) c =
     (if cmatch cs x \<and> may_take hi
      then (case exec (R (Rep cs (lo - 1) (less1 hi)) # k) s c of
              Some r \<Rightarrow> Some r
            | None \<Rightarrow> if lo = 0 then exec k (x # s) c else None)
      else if lo = 0 then exec k (x # s) c else None)"
  by pat_completeness auto
termination
  by (relation "inv_image (less_than <*lex*> less_than)
        (\<lambda>(k, s, c). (sum_list (map iweight k), length s))")
     (auto simp: comp_def)

text \<open>\<open>re.match\<close>: the pattern is tried at the start of the string only, and nothing
  anchors it at the end.  The result is the unmatched rest and the groups.\<close>

definition re_match :: "regex \<Rightarrow> string \<Rightarrow> (string \<times> captures) option" where
  "re_match r s = exec [R r] s Map.empty"

text \<open>The group names of a pattern, in the order of their opening parentheses: the keys
  of \<open>groupdict()\<close>, whose value is \<open>None\<close> for a group that took no part in the match.\<close>

fun group_names :: "regex \<Rightarrow> string list" where
  "group_names (Atom cs) = []"
| "group_names (Rep cs lo hi) = []"
| "group_names (Seq rs) = concat (map group_names rs)"
| "group_names (Alt a b) = group_names a @ group_names b"
| "group_names (Grp n r) = n # group_names r"

definition groupdict :: "regex \<Rightarrow> captures \<Rightarrow> (string \<times> string option) list" where
  "groupdict r c = map (\<lambda>n. (n, c n)) (group_names r)"

text \<open>The groups that take part in every match of a pattern: all groups but those
  under one branch only of an alternative.\<close>

fun sure :: "regex \<Rightarrow> string list" where
  "sure (Atom cs) = []"
| "sure (Rep cs lo hi) = []"
| "sure (Seq rs) = concat (map sure rs)"
| "sure (Alt a b) = filter (\<lambda>n. n \<in> set (sure b)) (sure a)"
| "sure (Grp n r) = n # sure r"

fun isure :: "item \<Rightarrow> string list" where
  "isure (R r) = sure r"
| "isure (Close n s) = [n]"

text \<open>\<open>re.sub\<close>: the leftmost match is replaced and the search goes on behind it; where
  the pattern does not match, one character is copied.  The pattern of this program starts
  with a literal and never matches the empty string, so the handling of empty matches of
  \<open>re.sub\<close> is not modelled: a match that consumes nothing counts as no match.\<close>

function re_sub :: "regex \<Rightarrow> string \<Rightarrow> string \<Rightarrow> string" where
  "re_sub r repl [] = []"
| "re_sub r repl (x # s) =
     (case re_match r (x # s) of
        Some (rest, c) \<Rightarrow>
          if length rest < length (x # s) then repl @ re_sub r repl rest
          else x # re_sub r repl s
      | None \<Rightarrow> x # re_sub r repl s)"
  by pat_completeness auto
termination
  by (relation "measure (\<lambda>(r, repl, s). length s)") auto

section \<open>String methods\<close>

text \<open>\<open>str.replace(old, new)\<close>: every occurrence of \<open>old\<close>, found from the left and not
  overlapping, becomes \<open>new\<close>; with an empty \<open>old\<close>, \<open>new\<close> is put before every character
  and at the end.\<close>

function replace_from :: "string \<Rightarrow> string \<Rightarrow> string \<Rightarrow> string" where
  "replace_from old new [] = []"
| "replace_from old new (x # s) =
     (if old \<noteq> [] \<and> prefix old (x # s)
      then new @ replace_from old new (drop (length old) (x # s))
      else x # replace_from old new s)"
  by pat_completeness auto
termination
  by (relation "measure (\<lambda>(old, new, s). length s)") auto

definition str_replace :: "string \<Rightarrow> string \<Rightarrow> string \<Rightarrow> string" where
  "str_replace s old new =
     (if old = [] then new @ concat (map (\<lambda>x. x # new) s) else replace_from old new s)"

text \<open>\<open>s.rsplit(sep, 1)\<close> for a string that contains \<open>sep\<close>: the parts before and after
  the last \<open>sep\<close>.\<close>

definition rsplit1 :: "char \<Rightarrow> string \<Rightarrow> string \<times> string" where
  "rsplit1 sep s =
     (let r = rev s
      in (rev (tl (dropWhile (\<lambda>x. x \<noteq> sep) r)), rev (takeWhile (\<lambda>x. x \<noteq> sep) r)))"

text \<open>\<open>s.split(sep)\<close> with a one-character separator.\<close>

fun str_split :: "char \<Rightarrow> string \<Rightarrow> string list" where
  "str_split sep [] = [[]]"
| "str_split sep (x # s) =
     (if x = sep then [] # str_split sep s
      else (case str_split sep s of [] \<Rightarrow> [[x]] | w # ws \<Rightarrow> (x # w) # ws))"

section \<open>Errors and dictionaries\<close>

datatype py_error =
    KeyError string
  | IndexError
  | TypeError
  | AttributeError
  | RequestException string

type_synonym 'v dict = "(string \<times> 'v) list"

definition dict_get :: "'v dict \<Rightarrow> string \<Rightarrow> py_error + 'v" where
  "dict_get d k = (case map_of d k of None \<Rightarrow> Inl (KeyError k) | Some v \<Rightarrow> Inr v)"

definition dict_set :: "'v dict \<Rightarrow> string \<Rightarrow> 'v \<Rightarrow> 'v dict" where
  "dict_set d k v = AList.update k v d"

definition dict_del :: "'v dict \<Rightarrow> string \<Rightarrow> py_error + 'v dict" where
  "dict_del d k = (if k \<in> fst ` set d then Inr (AList.delete k d) else Inl (KeyError k))"

text \<open>\<open>xs[-1]\<close>\<close>

definition last_item :: "'a list \<Rightarrow> py_error + 'a" where
  "last_item xs = (case rev xs of [] \<Rightarrow> Inl IndexError | x # _ \<Rightarrow> Inr x)"

text \<open>\<open>str(value)\<close> for a value that is a string or \<open>None\<close>.\<close>

fun py_str :: "string option \<Rightarrow> string" where
  "py_str None = ''None''"
| "py_str (Some s) = s"

section \<open>\<open>datetime.strptime\<close> and \<open>isoformat\<close>\<close>

record datetime =
  year :: nat
  month :: nat
  day :: nat
  hour :: nat
  minute :: nat
  second :: nat
  microsecond :: nat

text \<open>The regular expression that \<open>_strptime\<close> builds for the format
  \<open>%Y-%m-%dT%H:%M:%S.%fZ\<close>; it is compiled with \<open>re.IGNORECASE\<close>, so the literals
  \<open>T\<close> and \<open>Z\<close> also match in lower case.\<close>

abbreviation lit :: "char \<Rightarrow> regex" where
  "lit x \<equiv> Atom (Chr x)"

abbreviation rng :: "char \<Rightarrow> char \<Rightarrow> regex" where
  "rng a b \<equiv> Atom (Range a b)"

definition time_format_regex :: regex where
  "time_format_regex = Seq
    [Grp ''Y'' (Seq [Atom Digit, Atom Digit, Atom Digit, Atom Digit]),
     lit CHR ''-'',
     Grp ''m'' (Alt (Seq [lit CHR ''1'', rng CHR ''0'' CHR ''2''])
               (Alt (Seq [lit CHR ''0'', rng CHR ''1'' CHR ''9''])
                    (rng CHR ''1'' CHR ''9''))),
     lit CHR ''-'',
     Grp ''d'' (Alt (Seq [lit CHR ''3'', rng CHR ''0'' CHR ''1''])
               (Alt (Seq [rng CHR ''1'' CHR ''2'', Atom Digit])
               (Alt (Seq [lit CHR ''0'', rng CHR ''1'' CHR ''9''])
               (Alt (rng CHR ''1'' CHR ''9'')
                    (Seq [lit CHR '' '', rng CHR ''1'' CHR ''9'']))))),
     Atom (Union (Chr CHR ''T'') (Chr CHR ''t'')),
     Grp ''H'' (Alt (Seq [lit CHR ''2'', rng CHR ''0'' CHR ''3''])
               (Alt (Seq [rng CHR ''0'' CHR ''1'', Atom Digit])
                    (Atom Digit))),
     lit CHR '':'',
     Grp ''M'' (Alt (Seq [rng CHR ''0'' CHR ''5'', Atom Digit]) (Atom Digit)),
     lit CHR '':'',
     Grp ''S'' (Alt (Seq [lit CHR ''6'', rng CHR ''0'' CHR ''1''])
               (Alt (Seq [rng CHR ''0'' CHR ''5'', Atom Digit])
                    (Atom Digit))),
     lit CHR ''.'',
     Grp ''f'' (Rep (Range CHR ''0'' CHR ''9'') 1 (Some 6)),
     Atom (Union (Chr CHR ''Z'') (Chr CHR ''z''))]"

text \<open>\<open>int(s)\<close> for a string of decimal digits, with white space before them skipped.\<close>

definition py_int :: "string \<Rightarrow> nat" where
  "py_int s = foldl (\<lambda>n x. 10 * n + (of_char x - 48)) 0 (dropWhile is_space s)"

definition group :: "captures \<Rightarrow> string \<Rightarrow> string" where
  "group c n = (case c n of None \<Rightarrow> [] | Some v \<Rightarrow> v)"

definition is_leap :: "nat \<Rightarrow> bool" where
  "is_leap y = (y mod 4 = 0 \<and> (y mod 100 \<noteq> 0 \<or> y mod 400 = 0))"

definition days_in_month :: "nat \<Rightarrow> nat \<Rightarrow> nat" where
  "days_in_month y m =
     (if m = 2 then (if is_leap y then 29 else 28)
      else if m = 4 \<or> m = 6 \<or> m = 9 \<or> m = 11 then 30 else 31)"

text \<open>\<open>datetime.strptime(s, "%Y-%m-%dT%H:%M:%S.%fZ")\<close>; \<open>None\<close> is the \<open>ValueError\<close>
  it raises when the string does not match the format, when text remains behind the match,
  and when the \<open>datetime\<close> constructor rejects the year 0, a day the month does not have,
  or the seconds 60 and 61 that \<open>%S\<close> lets through.\<close>

definition strptime :: "string \<Rightarrow> datetime option" where
  "strptime s =
     (case re_match time_format_regex s of
        None \<Rightarrow> None
      | Some (rest, c) \<Rightarrow>
          if rest \<noteq> [] then None
          else
            let y = py_int (group c ''Y''); m = py_int (group c ''m'');
                d = py_int (group c ''d''); f = group c ''f''
            in if y < 1 \<or> days_in_month y m < d \<or> 59 < py_int (group c ''S'') then None
               else Some \<lparr>year = y, month = m, day = d,
                          hour = py_int (group c ''H''), minute = py_int (group c ''M''),
                          second = py_int (group c ''S''),
                          microsecond = py_int (f @ replicate (6 - length f) CHR ''0'')\<rparr>)"

function str_nat :: "nat \<Rightarrow> string" where
  "str_nat n =
     (if n < 10 then [char_of (48 + n)] else str_nat (n div 10) @ [char_of (48 + n mod 10)])"
  by pat_completeness auto
termination
  by (relation "measure (\<lambda>n. n)") auto

text \<open>\<open>'%0wd' % n\<close>\<close>

definition zero_pad :: "nat \<Rightarrow> nat \<Rightarrow> string" where
  "zero_pad w n = replicate (w - length (str_nat n)) CHR ''0'' @ str_nat n"

text \<open>\<open>datetime.isoformat()\<close>: the microseconds are printed only when they are not 0.\<close>

definition isoformat :: "datetime \<Rightarrow> string" where
  "isoformat t =
     zero_pad 4 (year t) @ ''-'' @ zero_pad 2 (month t) @ ''-'' @ zero_pad 2 (day t) @ ''T''
     @ zero_pad 2 (hour t) @ '':'' @ zero_pad 2 (minute t) @ '':'' @ zero_pad 2 (second t)
     @ (if microsecond t = 0 then [] else ''.'' @ zero_pad 6 (microsecond t))"

section \<open>The line parser\<close>

abbreviation some :: "cset \<Rightarrow> regex" where
  "some cs \<equiv> Rep cs 1 None"          \<comment> \<open>\<open>x+\<close>\<close>

abbreviation many :: "cset \<Rightarrow> regex" where
  "many cs \<equiv> Rep cs 0 None"          \<comment> \<open>\<open>x*\<close>\<close>

abbreviation maybe :: "cset \<Rightarrow> regex" where
  "maybe cs \<equiv> Rep cs 0 (Some 1)"     \<comment> \<open>\<open>x?\<close>\<close>

abbreviation sp :: regex where
  "sp \<equiv> Atom Space"

abbreviation dq :: regex where
  "dq \<equiv> Atom (Chr CHR 0x22)"

abbreviation dash :: regex where
  "dash \<equiv> Atom (Chr CHR ''-'')"

text \<open>The pattern of the pre-normalization,
  \<open>app/k8s-default-ingressn-[a-z0-9]+/[a-z0-9]+\<close>.\<close>

definition hash_class :: cset where
  "hash_class = Union (Range CHR ''a'' CHR ''z'') (Range CHR ''0'' CHR ''9'')"

definition path_pattern :: regex where
  "path_pattern =
     Seq (map (\<lambda>x. Atom (Chr x)) ''app/k8s-default-ingressn-''
          @ [some hash_class, lit CHR ''/'', some hash_class])"

text \<open>The pattern of the access-log line.  It is compiled with \<open>re.VERBOSE\<close>: the white
  space and the comments of the pattern text stand for nothing.\<close>

definition elb_pattern :: regex where
  "elb_pattern = Seq
    [Grp ''type'' (some NonSpace), sp,
     Grp ''time'' (some NonSpace), sp,
     some NonSpace, sp,
     Grp ''client_port'' (some NonSpace), sp,
     Grp ''target_port'' (Alt (some NonSpace) dash), sp,
     Grp ''request_processing_time''
       (Alt (Seq [maybe (Chr CHR ''-''), some Digit]) dash), sp,
     Grp ''target_processing_time''
       (Alt (Seq [maybe (Chr CHR ''-''), some Digit]) dash), sp,
     Grp ''response_processing_time''
       (Alt (Seq [maybe (Chr CHR ''-''), some Digit]) dash), sp,
     Grp ''elb_status_code'' (Alt (some Digit) dash), sp,
     Grp ''target_status_code'' (some NonSpace), sp,
     Grp ''received_bytes'' (Alt (some Digit) dash), sp,
     Grp ''sent_bytes'' (some Digit), sp,
     dq, Grp ''request''
           (Seq [Grp ''method'' (some NonSpace), sp,
                 Grp ''url'' (some NonSpace), sp,
                 Grp ''protocol'' (some NonSpace)]), dq, sp,
     dq, Grp ''user_agent'' (many (Except CHR 0x22)), dq, sp,
     Grp ''ssl_cipher'' (some NonSpace), sp,
     Grp ''ssl_protocol'' (some NonSpace), sp,
     Grp ''target_group_arn'' (some NonSpace), sp,
     dq, Grp ''trace_id'' (many (Except CHR 0x22)), dq, sp,
     dq, Grp ''domain_name'' (many (Except CHR 0x22)), dq, sp,
     some NonSpace, sp,
     Grp ''matched_rule_priority'' (some NonSpace), sp,
     Grp ''request_creation_time'' (some NonSpace), sp,
     dq, Grp ''actions_executed'' (many (Except CHR 0x22)), dq, sp,
     dq, Grp ''redirect_url'' (many (Except CHR 0x22)), dq, sp,
     dq, Grp ''error_reason'' (many (Except CHR 0x22)), dq, sp,
     dq, Grp ''target_port_list'' (many (Except CHR 0x22)), dq, sp,
     dq, Grp ''target_status_code_list'' (many (Except CHR 0x22)), dq, sp,
     dq, Grp ''classification'' (many (Except CHR 0x22)), dq, sp,
     dq, Grp ''classification_reason'' (many (Except CHR 0x22)), dq, sp,
     Grp ''tid'' (some NonSpace)]"

text \<open>The records that go to the sink are JSON objects.\<close>

datatype json = JStr string | JObj "(string \<times> json) list"

type_synonym environ = "string \<rightharpoonup> string"

text \<open>\<open>os.environ.get(name, default)\<close>\<close>

definition environ_get :: "environ \<Rightarrow> string \<Rightarrow> string \<Rightarrow> string" where
  "environ_get env name dflt = (case env name of None \<Rightarrow> dflt | Some v \<Rightarrow> v)"

text \<open>Lines 61 to 66: the time stamp.  \<open>strptime\<close> raises \<open>TypeError\<close>, which is not
  caught, for a value that is not a string; its \<open>ValueError\<close> is caught and the token is
  kept as it is.\<close>

definition iso_time_of :: "string \<Rightarrow> string" where
  "iso_time_of t = (case strptime t of Some time \<Rightarrow> isoformat time @ ''Z'' | None \<Rightarrow> t)"

definition format_timestamp :: "string option \<Rightarrow> py_error + string" where
  "format_timestamp v = (case v of None \<Rightarrow> Inl TypeError | Some t \<Rightarrow> Inr (iso_time_of t))"

text \<open>Lines 69 and 70: \<open>v.rsplit(':', 1) if ':' in v else (v, "")\<close>\<close>

definition address_parts :: "string \<Rightarrow> string \<times> string" where
  "address_parts a = (if CHR '':'' \<in> set a then rsplit1 CHR '':'' a else (a, []))"

definition split_address :: "string option \<Rightarrow> py_error + string \<times> string" where
  "split_address v = (case v of None \<Rightarrow> Inl TypeError | Some a \<Rightarrow> Inr (address_parts a))"

text \<open>Line 73: \<open>v.split('/')[-1] if v != '-' else ''\<close>\<close>

definition service_name :: "string option \<Rightarrow> py_error + string" where
  "service_name v =
     (case v of
        None \<Rightarrow> Inl AttributeError
      | Some a \<Rightarrow> if a \<noteq> ''-'' then last_item (str_split CHR ''/'' a) else Inr [])"

text \<open>Lines 80 and 81: every value of the dictionary becomes a string, the sentinel the
  empty one.\<close>

definition normalize_value :: "string option \<Rightarrow> string" where
  "normalize_value v = (if v = Some ''-'' then [] else py_str v)"

definition normalize_values :: "string option dict \<Rightarrow> string dict" where
  "normalize_values d = map (\<lambda>(key, v). (key, normalize_value v)) d"

definition failure_record :: "json dict" where
  "failure_record =
     [(''_time'', JStr []), (''data'', JObj [(''error'', JStr ''Failed to parse log line'')])]"

definition normalize_line :: "string \<Rightarrow> string" where
  "normalize_line log_line = re_sub path_pattern ''app/k8s-default-ingress'' log_line"

definition redact :: "environ \<Rightarrow> string \<Rightarrow> string" where
  "redact env log_line =
     str_replace (str_replace log_line (environ_get env ''CERT_ARN'' []) ''CERT_ARN'')
       (environ_get env ''ACCOUNT_ID'' []) ''ACCOUNT_ID''"

text \<open>An exception ends the computation: the steps of a function are chained with
  \<open>raising\<close>, which hands the value of a step on unless the step raised.\<close>

definition raising :: "py_error + 'a \<Rightarrow> ('a \<Rightarrow> py_error + 'b) \<Rightarrow> py_error + 'b" where
  "raising m f = (case m of Inl e \<Rightarrow> Inl e | Inr x \<Rightarrow> f x)"

text \<open>The fields of a matched line, lines 59 to 84.\<close>

definition build_result :: "environ \<Rightarrow> string \<Rightarrow> string option dict \<Rightarrow> py_error + json dict" where
  "build_result env log_line result0 =
     raising (dict_get result0 ''time'') (\<lambda>tm.
     raising (format_timestamp tm) (\<lambda>iso_time.
     raising (dict_get result0 ''client_port'') (\<lambda>cp.
     raising (split_address cp) (\<lambda>(client, client_port).
     let result1 = dict_set (dict_set result0 ''client'' (Some client))
                     ''client_port'' (Some client_port) in
     raising (dict_get result1 ''target_port'') (\<lambda>tp.
     raising (split_address tp) (\<lambda>(target, target_port).
     let result2 = dict_set (dict_set result1 ''target'' (Some target))
                     ''target_port'' (Some target_port) in
     raising (dict_get result2 ''target_group_arn'') (\<lambda>arn.
     raising (service_name arn) (\<lambda>service.
     let result3 = dict_set result2 ''service'' (Some service) in
     raising (dict_del result3 ''target_group_arn'') (\<lambda>result4.
     raising (dict_del result4 ''time'') (\<lambda>result5.
     let result6 = dict_set (normalize_values result5) ''raw_log'' (redact env log_line)
     in Inr ((''_time'', JStr iso_time) # map (\<lambda>(key, v). (key, JStr v)) result6)))))))))))"

definition parse_elb_log :: "environ \<Rightarrow> string \<Rightarrow> py_error + json dict" where
  "parse_elb_log env log_line0 =
     (let log_line = normalize_line log_line0
      in case re_match elb_pattern log_line of
           None \<Rightarrow> Inr failure_record
         | Some (rest, c) \<Rightarrow> build_result env log_line (groupdict elb_pattern c))"

section \<open>The handler\<close>

text \<open>The object store, the decompression and the sink are outside the program.  The
  handler is given the decoded lines of the log file, or the exception that reading them
  raised; the sink answers a request, knowing all requests so far, with a status code or
  with an exception of \<open>requests.post\<close>.\<close>

record request =
  url :: string
  authorization :: string
  content_type :: string
  payload :: "json dict list"

type_synonym sink = "request list \<Rightarrow> py_error + nat"

datatype log_entry =
    BatchFailed nat nat     \<comment> \<open>\<open>Batch {number} failed: {status}\<close>\<close>
  | Error py_error          \<comment> \<open>\<open>Error: {e}\<close>\<close>

record handler_state =
  sent :: "request list"
  logged :: "log_entry list"

record response =
  statusCode :: nat
  message :: string

definition batch_size :: nat where
  "batch_size = 50"

text \<open>Lines 101 to 104: every line is parsed and its record appended.\<close>

fun parse_lines :: "environ \<Rightarrow> string list \<Rightarrow> py_error + json dict list" where
  "parse_lines env [] = Inr []"
| "parse_lines env (line # lines) =
     raising (parse_elb_log env line) (\<lambda>log_entry.
     raising (parse_lines env lines) (\<lambda>json_logs. Inr (log_entry # json_logs)))"

text \<open>Lines 115 to 123: \<open>for i in range(0, len(json_logs), batch_size)\<close>.\<close>

function send_batches ::
  "sink \<Rightarrow> string \<Rightarrow> string \<Rightarrow> json dict list \<Rightarrow> nat \<Rightarrow> handler_state
     \<Rightarrow> (py_error + unit) \<times> handler_state" where
  "send_batches post dataset token json_logs i st =
     (if i < length json_logs then
        let batch = take batch_size (drop i json_logs);
            st1 = st\<lparr>sent := sent st
                    @ [\<lparr>url = ''https://api.axiom.co/v1/datasets/'' @ dataset @ ''/ingest'',
                        authorization = ''Bearer '' @ token,
                        content_type = ''application/json'',
                        payload = batch\<rparr>]\<rparr>
        in (case post (sent st1) of
              Inl e \<Rightarrow> (Inl e, st1)
            | Inr status \<Rightarrow>
                send_batches post dataset token json_logs (i + batch_size)
                  (if status \<noteq> 200
                   then st1\<lparr>logged := logged st1 @ [BatchFailed (i div batch_size + 1) status]\<rparr>
                   else st1))
      else (Inr (), st))"
  by pat_completeness auto
termination
  by (relation "measure (\<lambda>(post, dataset, token, json_logs, i, st). length json_logs - i)")
     (auto simp: batch_size_def)

definition deliver :: "environ \<Rightarrow> sink \<Rightarrow> json dict list \<Rightarrow> (py_error + response) \<times> handler_state" where
  "deliver env post json_logs =
     (let st0 = \<lparr>sent = [], logged = []\<rparr> in
      (case env ''DATASET_NAME'' of
         None \<Rightarrow> (Inl (KeyError ''DATASET_NAME''), st0)
       | Some dataset \<Rightarrow>
          (case env ''AXIOM_API_TOKEN'' of
             None \<Rightarrow> (Inl (KeyError ''AXIOM_API_TOKEN''), st0)
           | Some token \<Rightarrow>
              (case send_batches post dataset token json_logs 0 st0 of
                 (Inl e, st) \<Rightarrow> (Inl e, st)
               | (Inr u, st) \<Rightarrow>
                   (Inr \<lparr>statusCode = 200,
                         message = ''Processed '' @ str_nat (length json_logs) @ '' logs''\<rparr>,
                    st)))))"

text \<open>Lines 96 to 129; an exception is logged and raised again.\<close>

definition lambda_handler ::
  "environ \<Rightarrow> sink \<Rightarrow> py_error + string list \<Rightarrow> (py_error + response) \<times> handler_state" where
  "lambda_handler env post body =
     (let outcome =
        (case body of
           Inl e \<Rightarrow> (Inl e, \<lparr>sent = [], logged = []\<rparr>)
         | Inr lines \<Rightarrow>
            (case parse_lines env lines of
               Inl e \<Rightarrow> (Inl e, \<lparr>sent = [], logged = []\<rparr>)
             | Inr json_logs \<Rightarrow> deliver env post json_logs))
      in (case outcome of
            (Inl e, st) \<Rightarrow> (Inl e, st\<lparr>logged := logged st @ [Error e]\<rparr>)
          | (Inr r, st) \<Rightarrow> (Inr r, st)))"

text \<open>The fields of the record of a matched line, written out: what \<open>build_result\<close>
  computes when the four groups it reads are strings.\<close>

definition service_of :: "string \<Rightarrow> string" where
  "service_of a = (if a \<noteq> ''-'' then last (str_split CHR ''/'' a) else [])"

definition fields :: "environ \<Rightarrow> string \<Rightarrow> string option dict \<Rightarrow> string \<Rightarrow> string \<Rightarrow> string \<Rightarrow> string dict" where
  "fields env l r0 cp tp arn =
     AList.update ''raw_log'' (redact env l)
       (normalize_values
         (AList.delete ''time'' (AList.delete ''target_group_arn''
           (AList.update ''service'' (Some (service_of arn))
             (AList.update ''target_port'' (Some (snd (address_parts tp)))
               (AList.update ''target'' (Some (fst (address_parts tp)))
                 (AList.update ''client_port'' (Some (snd (address_parts cp)))
                   (AList.update ''client'' (Some (fst (address_parts cp))) r0))))))))"

text \<open>Reading a field of the result of the parser.\<close>

definition field :: "py_error + json dict \<Rightarrow> string \<Rightarrow> json option" where
  "field res key = (case res of Inl e \<Rightarrow> None | Inr record \<Rightarrow> map_of record key)"

text \<open>A line of the log with the time token \<open>tm\<close>, for the examples.\<close>

definition quoted :: "string \<Rightarrow> string" where
  "quoted s = CHR 0x22 # s @ [CHR 0x22]"

definition sample_line :: "string \<Rightarrow> string" where
  "sample_line tm =
     ''h2 '' @ tm @ '' app/k8s-default-ingressn-a1/b2 10.0.0.1:443 - -1 -1 -1 200 - 0 57 ''
     @ quoted ''GET / H'' @ '' '' @ quoted ''c l'' @ '' - - tg/svc/abc '' @ quoted ''id'' @ '' ''
     @ quoted ''x.io'' @ '' arn:57:c 1 r '' @ quoted ''-'' @ '' '' @ quoted ''-'' @ '' ''
     @ quoted ''-'' @ '' '' @ quoted ''-'' @ '' '' @ quoted ''-'' @ '' '' @ quoted ''-'' @ '' ''
     @ quoted ''-'' @ '' T''"

definition sample_env :: environ where
  "sample_env = [''CERT_ARN'' \<mapsto> ''arn:57:c'', ''ACCOUNT_ID'' \<mapsto> ''57'',
                 ''DATASET_NAME'' \<mapsto> ''logs'', ''AXIOM_API_TOKEN'' \<mapsto> ''secret'']"

section \<open>Notions for the statements and their proofs\<close>

text \<open>A flat record: every value is a string.\<close>

definition flat :: "json dict \<Rightarrow> bool" where
  "flat record = list_all (\<lambda>(key, v). case v of JStr s \<Rightarrow> True | JObj fs \<Rightarrow> False) record"

text \<open>The contiguous slices of at most \<open>n\<close> items.\<close>

function chunks :: "nat \<Rightarrow> 'a list \<Rightarrow> 'a list list" where
  "chunks n xs = (if xs = [] \<or> n = 0 then [] else take n xs # chunks n (drop n xs))"
  by pat_completeness auto
termination
  by (relation "measure (\<lambda>(n, xs). length xs)") auto

text \<open>A sink that answers every request with a status code, whatever the code.\<close>

definition responds :: "sink \<Rightarrow> bool" where
  "responds post = (\<forall>h. \<exists>status. post h = Inr status)"

text \<open>A sink that refuses the second request, for the examples.\<close>

definition flaky_sink :: sink where
  "flaky_sink h = Inr (if length h = 2 then 500 else 200)"

text \<open>The least number of characters a pattern consumes.\<close>

fun minlen :: "regex \<Rightarrow> nat" where
  "minlen (Atom cs) = 1"
| "minlen (Rep cs lo hi) = lo"
| "minlen (Seq rs) = sum_list (map minlen rs)"
| "minlen (Alt a b) = min (minlen a) (minlen b)"
| "minlen (Grp n r) = minlen r"

fun iminlen :: "item \<Rightarrow> nat" where
  "iminlen (R r) = minlen r"
| "iminlen (Close n s) = 0"

text \<open>The texts a pattern can consume, whatever the order of the attempts.\<close>

fun accepts :: "regex \<Rightarrow> string \<Rightarrow> bool"
  and accepts_seq :: "regex list \<Rightarrow> string \<Rightarrow> bool" where
  "accepts (Atom cs) w = (\<exists>x. w = [x] \<and> cmatch cs x)"
| "accepts (Rep cs lo hi) w = (lo \<le> length w \<and> list_all (cmatch cs) w)"
| "accepts (Seq rs) w = accepts_seq rs w"
| "accepts (Alt a b) w = (accepts a w \<or> accepts b w)"
| "accepts (Grp n r) w = accepts r w"
| "accepts_seq [] w = (w = [])"
| "accepts_seq (r # rs) w = (\<exists>u v. w = u @ v \<and> accepts r u \<and> accepts_seq rs v)"

fun accepts_items :: "item list \<Rightarrow> string \<Rightarrow> bool" where
  "accepts_items [] w = (w = [])"
| "accepts_items (R r # k) w = (\<exists>u v. w = u @ v \<and> accepts r u \<and> accepts_items k v)"
| "accepts_items (Close n s # k) w = accepts_items k w"

text \<open>A white-space character followed by a digit somewhere in the text.\<close>

fun space_digit :: "string \<Rightarrow> bool" where
  "space_digit (x # y # s) = ((is_space x \<and> is_digit y) \<or> space_digit (y # s))"
| "space_digit s = False"

definition starts_digit :: "string \<Rightarrow> bool" where
  "starts_digit s = (case s of [] \<Rightarrow> False | x # t \<Rightarrow> is_digit x)"

text \<open>A text that brings no white space and does not begin with a digit.\<close>

definition inert :: "string \<Rightarrow> bool" where
  "inert new = (new \<noteq> [] \<and> list_all (\<lambda>x. \<not> is_space x) new \<and> \<not> starts_digit new)"

text \<open>\<open>s.count(sub)\<close>: the occurrences of \<open>sub\<close> found from the left, not overlapping.\<close>

function count_from :: "string \<Rightarrow> string \<Rightarrow> nat" where
  "count_from sub [] = 0"
| "count_from sub (x # s) =
     (if sub \<noteq> [] \<and> prefix sub (x # s)
      then Suc (count_from sub (drop (length sub) (x # s)))
      else count_from sub s)"
  by pat_completeness auto
termination
  by (relation "measure (\<lambda>(sub, s). length s)") auto

definition str_count :: "string \<Rightarrow> string \<Rightarrow> nat" where
  "str_count s sub = (if sub = [] then length s + 1 else count_from sub s)"


text \<open>The decimal digit for a number below ten, the number that a list of digits writes,
  and a number written with two and with four digits.\<close>

definition digit_char :: "nat \<Rightarrow> char" where
  "digit_char n = ''0123456789'' ! n"

definition decimal :: "nat list \<Rightarrow> nat" where
  "decimal ns = foldl (\<lambda>a n. 10 * a + n) 0 ns"

definition two_digits :: "nat \<Rightarrow> string" where
  "two_digits n = [digit_char (n div 10), digit_char (n mod 10)]"

definition four_digits :: "nat \<Rightarrow> string" where
  "four_digits n = two_digits (n div 100) @ two_digits (n mod 100)"

text \<open>The date and the time of day as the log writes them, \<open>2023-01-15T10:30:00\<close>.\<close>

definition date_time :: "nat \<Rightarrow> nat \<Rightarrow> nat \<Rightarrow> nat \<Rightarrow> nat \<Rightarrow> nat \<Rightarrow> string" where
  "date_time y m d h mi s =
     four_digits y @ ''-'' @ two_digits m @ ''-'' @ two_digits d @ ''T''
     @ two_digits h @ '':'' @ two_digits mi @ '':'' @ two_digits s"

section \<open>Properties of the matcher\<close>

lemma exec_sure:
  "exec k s c = Some (s', c') \<Longrightarrow>
     (\<forall>n \<in> set (concat (map isure k)). c' n \<noteq> None) \<and> (\<forall>n. c n \<noteq> None \<longrightarrow> c' n \<noteq> None)"
proof (induction k s c rule: exec.induct)
  case (5 rs k s c)
  then show ?case by (simp add: comp_def)
next
  case (6 a b k s c)
  then show ?case by (auto split: option.splits)
next
  case (9 cs lo hi k x s c)
  then show ?case by (auto split: option.splits if_splits)
qed (auto split: if_splits)

lemma elb_group_names:
  "group_names elb_pattern =
     [''type'', ''time'', ''client_port'', ''target_port'', ''request_processing_time'',
      ''target_processing_time'', ''response_processing_time'', ''elb_status_code'',
      ''target_status_code'', ''received_bytes'', ''sent_bytes'', ''request'', ''method'',
      ''url'', ''protocol'', ''user_agent'', ''ssl_cipher'', ''ssl_protocol'',
      ''target_group_arn'', ''trace_id'', ''domain_name'', ''matched_rule_priority'',
      ''request_creation_time'', ''actions_executed'', ''redirect_url'', ''error_reason'',
      ''target_port_list'', ''target_status_code_list'', ''classification'',
      ''classification_reason'', ''tid'']"
  by (simp add: elb_pattern_def)

lemma elb_sure: "sure elb_pattern = group_names elb_pattern"
  by (simp add: elb_pattern_def)

lemma elb_groups:
  assumes "re_match elb_pattern s = Some (rest, c)" and "n \<in> set (group_names elb_pattern)"
  shows "\<exists>v. c n = Some v"
  using exec_sure[OF assms(1)[unfolded re_match_def]] assms(2) by (auto simp: elb_sure)

lemma map_of_groupdict:
  "n \<in> set (group_names r) \<Longrightarrow> map_of (groupdict r c) n = Some (c n)"
  unfolding groupdict_def by (induction "group_names r" arbitrary: r) (auto simp: map_of_map_restrict)

section \<open>Properties of the parser\<close>

lemma str_split_nonempty: "str_split sep s \<noteq> []"
  by (induction s) (auto split: list.splits)

lemma last_item_split: "last_item (str_split sep s) = Inr (last (str_split sep s))"
  using str_split_nonempty[of sep s]
  by (cases "str_split sep s" rule: rev_cases) (auto simp: last_item_def)

lemma in_keys: "map_of d k = Some v \<Longrightarrow> k \<in> fst ` set d"
  by (force dest: map_of_SomeD)

lemma keys_delete: "fst ` set (AList.delete k al) = fst ` set al - {k}"
  by (force simp: AList.delete_eq)

lemma build_result_ok:
  assumes "map_of r0 ''time'' = Some (Some tm)"
    and "map_of r0 ''client_port'' = Some (Some cp)"
    and "map_of r0 ''target_port'' = Some (Some tp)"
    and "map_of r0 ''target_group_arn'' = Some (Some arn)"
  shows "build_result env l r0 =
     Inr ((''_time'', JStr (iso_time_of tm)) # map (\<lambda>(key, v). (key, JStr v)) (fields env l r0 cp tp arn))"
proof -
  have k1: "''target_group_arn'' \<in> fst ` set r0" and k2: "''time'' \<in> fst ` set r0"
    using assms by (auto dest: in_keys)
  show ?thesis
    using assms k1 k2
    by (simp add: build_result_def raising_def dict_get_def dict_set_def dict_del_def
        format_timestamp_def split_address_def service_name_def last_item_split
        update_conv' dom_update keys_delete fields_def service_of_def
        split: option.splits prod.splits)
qed

lemma parse_matched:
  assumes m: "re_match elb_pattern (normalize_line line) = Some (rest, c)"
  shows "\<exists>tm cp tp arn.
           c ''time'' = Some tm \<and> c ''client_port'' = Some cp \<and> c ''target_port'' = Some tp
           \<and> c ''target_group_arn'' = Some arn
           \<and> parse_elb_log env line =
               Inr ((''_time'', JStr (iso_time_of tm))
                    # map (\<lambda>(key, v). (key, JStr v))
                        (fields env (normalize_line line) (groupdict elb_pattern c) cp tp arn))"
proof -
  obtain tm where 1: "c ''time'' = Some tm"
    using elb_groups[OF m, of "''time''"] by (auto simp: elb_group_names)
  obtain cp where 2: "c ''client_port'' = Some cp"
    using elb_groups[OF m, of "''client_port''"] by (auto simp: elb_group_names)
  obtain tp where 3: "c ''target_port'' = Some tp"
    using elb_groups[OF m, of "''target_port''"] by (auto simp: elb_group_names)
  obtain arn where 4: "c ''target_group_arn'' = Some arn"
    using elb_groups[OF m, of "''target_group_arn''"] by (auto simp: elb_group_names)
  have "build_result env (normalize_line line) (groupdict elb_pattern c) =
          Inr ((''_time'', JStr (iso_time_of tm))
               # map (\<lambda>(key, v). (key, JStr v))
                   (fields env (normalize_line line) (groupdict elb_pattern c) cp tp arn))"
    by (rule build_result_ok) (simp_all add: map_of_groupdict elb_group_names 1 2 3 4)
  then show ?thesis
    using 1 2 3 4 by (simp add: parse_elb_log_def m)
qed

lemma map_of_JStr:
  "map_of (map (\<lambda>(key, v). (key, JStr v)) d) k = map_option JStr (map_of d k)"
  by (induction d) auto

lemma map_of_normalize_values:
  "map_of (normalize_values d) k = map_option normalize_value (map_of d k)"
  unfolding normalize_values_def by (induction d) auto

text \<open>
  Claim C1, as amended: for every line whose normalized form matches the grammar, and every
  environment, the \<open>raw_log\<close> field of the result is the line after the path
  normalization (not the line as it was passed in), with the value of \<open>CERT_ARN\<close> and then
  the value of \<open>ACCOUNT_ID\<close> replaced by the placeholders.
\<close>

theorem C1_raw_log_of_normalized_line:
  assumes "re_match elb_pattern (normalize_line line) = Some (rest, c)"
  shows "field (parse_elb_log env line) ''raw_log'' = Some (JStr (redact env (normalize_line line)))"
proof -
  from parse_matched[OF assms, of env] obtain tm cp tp arn where
    "parse_elb_log env line =
       Inr ((''_time'', JStr (iso_time_of tm))
            # map (\<lambda>(key, v). (key, JStr v))
                (fields env (normalize_line line) (groupdict elb_pattern c) cp tp arn))"
    by blast
  then show ?thesis
    by (simp add: field_def map_of_JStr fields_def update_conv')
qed

text \<open>The claim as written fails: the sample line holds a path that the normalization
  rewrites, and \<open>raw_log\<close> is not the redacted original line.\<close>

theorem C1_counterexample:
  "field (parse_elb_log sample_env (sample_line ''-'')) ''raw_log''
     \<noteq> Some (JStr (redact sample_env (sample_line ''-'')))"
  by code_simp

theorem C1_witness:
  "re_match elb_pattern (normalize_line (sample_line ''-'')) \<noteq> None
   \<and> field (parse_elb_log sample_env (sample_line ''-'')) ''raw_log''
       = Some (JStr (redact sample_env (normalize_line (sample_line ''-''))))"
proof -
  have ne: "re_match elb_pattern (normalize_line (sample_line ''-'')) \<noteq> None"
    by code_simp
  then obtain rest c where
    m: "re_match elb_pattern (normalize_line (sample_line ''-'')) = Some (rest, c)"
    by auto
  show ?thesis
    using ne C1_raw_log_of_normalized_line[OF m, of sample_env] by simp
qed

lemma flat_JStr: "flat (map (\<lambda>(key, v). (key, JStr v)) d)"
  unfolding flat_def by (induction d) auto

text \<open>
  Claim C3, as amended: the record of every line that matches the grammar is a flat JSON
  object, a \<open>_time\<close> field and string fields beside it, with no nesting.  (The record of a
  line that does not match is not flat: its error marker is an object under \<open>data\<close>.)
\<close>

theorem C3_parsed_record_flat:
  assumes "re_match elb_pattern (normalize_line line) = Some (rest, c)"
  shows "\<exists>record t. parse_elb_log env line = Inr record \<and> flat record
           \<and> map_of record ''_time'' = Some (JStr t)"
proof -
  from parse_matched[OF assms, of env] obtain tm cp tp arn where
    "parse_elb_log env line =
       Inr ((''_time'', JStr (iso_time_of tm))
            # map (\<lambda>(key, v). (key, JStr v))
                (fields env (normalize_line line) (groupdict elb_pattern c) cp tp arn))"
    by blast
  then show ?thesis
    using flat_JStr[of "fields env (normalize_line line) (groupdict elb_pattern c) cp tp arn"]
    by (simp add: flat_def)
qed

text \<open>The claim as written fails for the record of a line that does not match.\<close>

theorem C3_counterexample:
  "parse_elb_log sample_env ''garbage'' = Inr failure_record \<and> \<not> flat failure_record
   \<and> field (parse_elb_log sample_env ''garbage'') ''data''
       = Some (JObj [(''error'', JStr ''Failed to parse log line'')])"
  by code_simp

theorem C3_witness:
  "re_match elb_pattern (normalize_line (sample_line ''-'')) \<noteq> None
   \<and> (\<exists>record t. parse_elb_log sample_env (sample_line ''-'') = Inr record \<and> flat record
           \<and> map_of record ''_time'' = Some (JStr t))"
proof -
  have ne: "re_match elb_pattern (normalize_line (sample_line ''-'')) \<noteq> None"
    by code_simp
  then obtain rest c where
    m: "re_match elb_pattern (normalize_line (sample_line ''-'')) = Some (rest, c)"
    by auto
  show ?thesis
    using ne C3_parsed_record_flat[OF m, of sample_env] by simp
qed

lemma rsplit1_last:
  assumes "sep \<notin> set y"
  shows "rsplit1 sep (x @ sep # y) = (x, y)"
proof -
  have a: "\<And>z. z \<in> set (rev y) \<Longrightarrow> z \<noteq> sep"
    using assms by auto
  have "dropWhile (\<lambda>z. z \<noteq> sep) (rev y @ sep # rev x) = sep # rev x"
    by (subst dropWhile_append2) (use a in auto)
  moreover have "takeWhile (\<lambda>z. z \<noteq> sep) (rev y @ sep # rev x) = rev y"
    by (subst takeWhile_append2) (use a in auto)
  ultimately show ?thesis
    by (simp add: rsplit1_def Let_def)
qed

lemma address_parts_colon: "CHR '':'' \<notin> set y \<Longrightarrow> address_parts (x @ CHR '':'' # y) = (x, y)"
  using rsplit1_last[of "CHR '':''" y x] by (simp add: address_parts_def)

lemma address_parts_plain: "CHR '':'' \<notin> set a \<Longrightarrow> address_parts a = (a, [])"
  by (simp add: address_parts_def)

lemma field_of_fields:
  assumes "parse_elb_log env line =
       Inr ((''_time'', JStr t) # map (\<lambda>(key, v). (key, JStr v)) (fields env l r0 cp tp arn))"
  shows "field (parse_elb_log env line) ''client'' = Some (JStr (normalize_value (Some (fst (address_parts cp)))))"
    and "field (parse_elb_log env line) ''client_port'' = Some (JStr (normalize_value (Some (snd (address_parts cp)))))"
    and "field (parse_elb_log env line) ''target'' = Some (JStr (normalize_value (Some (fst (address_parts tp)))))"
    and "field (parse_elb_log env line) ''target_port'' = Some (JStr (normalize_value (Some (snd (address_parts tp)))))"
  using assms
  by (simp_all add: field_def map_of_JStr fields_def update_conv' delete_conv' map_of_normalize_values)

text \<open>
  Claim C7: for every line that matches the grammar, with the client field \<open>cp\<close> and the
  target field \<open>tp\<close>: \<open>client\<close> and \<open>client_port\<close> are the two parts of \<open>cp\<close>, \<open>target\<close> and
  \<open>target_port\<close> those of \<open>tp\<close>, each after the normalization of the sentinel.  The parts of
  \<open>x:y\<close>, where \<open>y\<close> has no colon, are \<open>x\<close> and \<open>y\<close> (the split is at the last colon); the
  parts of a field with no colon are the field and the empty string; so the sentinel
  \<open>-\<close> gives two empty fields.
\<close>

theorem C7_address_split:
  assumes "re_match elb_pattern (normalize_line line) = Some (rest, c)"
    and "c ''client_port'' = Some cp" and "c ''target_port'' = Some tp"
  shows "field (parse_elb_log env line) ''client''
           = Some (JStr (normalize_value (Some (fst (address_parts cp)))))
       \<and> field (parse_elb_log env line) ''client_port''
           = Some (JStr (normalize_value (Some (snd (address_parts cp)))))
       \<and> field (parse_elb_log env line) ''target''
           = Some (JStr (normalize_value (Some (fst (address_parts tp)))))
       \<and> field (parse_elb_log env line) ''target_port''
           = Some (JStr (normalize_value (Some (snd (address_parts tp)))))
       \<and> (\<forall>x y. CHR '':'' \<notin> set y \<longrightarrow> address_parts (x @ '':'' @ y) = (x, y))
       \<and> (\<forall>a. CHR '':'' \<notin> set a \<longrightarrow> address_parts a = (a, []))
       \<and> address_parts ''10.0.0.1:443'' = (''10.0.0.1'', ''443'')
       \<and> (tp = ''-'' \<longrightarrow> field (parse_elb_log env line) ''target'' = Some (JStr [])
                        \<and> field (parse_elb_log env line) ''target_port'' = Some (JStr []))"
proof -
  from parse_matched[OF assms(1), of env] assms(2,3) obtain tm arn where
    p: "parse_elb_log env line =
       Inr ((''_time'', JStr (iso_time_of tm))
            # map (\<lambda>(key, v). (key, JStr v))
                (fields env (normalize_line line) (groupdict elb_pattern c) cp tp arn))"
    by auto
  have ex: "address_parts ''10.0.0.1:443'' = (''10.0.0.1'', ''443'')"
    using address_parts_colon[of "''443''" "''10.0.0.1''"] by simp
  have s: "tp = ''-'' \<Longrightarrow> address_parts tp = (''-'', [])"
    by (simp add: address_parts_plain)
  show ?thesis
    using field_of_fields[OF p] ex s
    by (auto simp: address_parts_colon address_parts_plain normalize_value_def)
qed

theorem C7_witness:
  "field (parse_elb_log sample_env (sample_line ''-'')) ''client'' = Some (JStr ''10.0.0.1'')
   \<and> field (parse_elb_log sample_env (sample_line ''-'')) ''client_port'' = Some (JStr ''443'')
   \<and> field (parse_elb_log sample_env (sample_line ''-'')) ''target'' = Some (JStr [])
   \<and> field (parse_elb_log sample_env (sample_line ''-'')) ''target_port'' = Some (JStr [])"
proof -
  have "map_option (\<lambda>(rest, c). (c ''client_port'', c ''target_port''))
          (re_match elb_pattern (normalize_line (sample_line ''-'')))
        = Some (Some ''10.0.0.1:443'', Some ''-'')"
    by code_simp
  then obtain rest c where
    m: "re_match elb_pattern (normalize_line (sample_line ''-'')) = Some (rest, c)"
    and cp: "c ''client_port'' = Some ''10.0.0.1:443''" and tp: "c ''target_port'' = Some ''-''"
    by auto
  have n: "CHR '':'' \<notin> set ''443''" "CHR '':'' \<notin> set ''-''"
    by simp_all
  show ?thesis
    using C7_address_split[OF m cp tp, of sample_env] n
    by (simp add: normalize_value_def)
qed

declare chunks.simps [simp del]

declare send_batches.simps [simp del]

declare str_nat.simps [simp del]

lemma parse_total: "\<exists>record. parse_elb_log env line = Inr record"
proof (cases "re_match elb_pattern (normalize_line line)")
  case None
  then show ?thesis by (simp add: parse_elb_log_def)
next
  case (Some a)
  then obtain rest c where "re_match elb_pattern (normalize_line line) = Some (rest, c)"
    by (cases a) auto
  from parse_matched[OF this, of env] show ?thesis by blast
qed

lemma parse_lines_total:
  "\<exists>json_logs. parse_lines env lines = Inr json_logs \<and> length json_logs = length lines
     \<and> (\<forall>i < length lines. parse_elb_log env (lines ! i) = Inr (json_logs ! i))"
proof (induction lines)
  case Nil
  then show ?case by simp
next
  case (Cons l ls)
  obtain r where r: "parse_elb_log env l = Inr r" using parse_total by blast
  from Cons obtain js where js: "parse_lines env ls = Inr js" "length js = length ls"
    "\<forall>i < length ls. parse_elb_log env (ls ! i) = Inr (js ! i)" by blast
  show ?case
    using r js by (auto simp: raising_def nth_Cons split: nat.splits)
qed

lemma send_batches_all:
  "responds post \<Longrightarrow>
     \<exists>st'. send_batches post dataset token json_logs i st = (Inr (), st')
           \<and> map payload (sent st') = map payload (sent st) @ chunks batch_size (drop i json_logs)"
proof (induction post dataset token json_logs i st rule: send_batches.induct)
  case (1 post dataset token json_logs i st)
  show ?case
  proof (cases "i < length json_logs")
    case False
    then show ?thesis
      by (subst send_batches.simps, subst chunks.simps) simp
  next
    case True
    define st1 where "st1 = st\<lparr>sent := sent st
                    @ [\<lparr>url = ''https://api.axiom.co/v1/datasets/'' @ dataset @ ''/ingest'',
                        authorization = ''Bearer '' @ token,
                        content_type = ''application/json'',
                        payload = take batch_size (drop i json_logs)\<rparr>]\<rparr>"
    from "1.prems" [unfolded responds_def] obtain status where s: "post (sent st1) = Inr status"
      by blast
    define st2 where "st2 = (if status \<noteq> 200
                   then st1\<lparr>logged := logged st1 @ [BatchFailed (i div batch_size + 1) status]\<rparr>
                   else st1)"
    have ih: "\<exists>st'. send_batches post dataset token json_logs (i + batch_size) st2 = (Inr (), st')
           \<and> map payload (sent st') = map payload (sent st2) @ chunks batch_size (drop (i + batch_size) json_logs)"
      unfolding st2_def st1_def
      by (rule "1.IH"[OF True refl refl s[unfolded st1_def] "1.prems"])
    have step: "send_batches post dataset token json_logs i st
        = send_batches post dataset token json_logs (i + batch_size) st2"
      using True s
      by (subst send_batches.simps) (simp add: st1_def st2_def Let_def)
    have c: "chunks batch_size (drop i json_logs)
       = take batch_size (drop i json_logs) # chunks batch_size (drop (i + batch_size) json_logs)"
      using True by (subst chunks.simps) (simp add: batch_size_def add.commute)
    have p: "map payload (sent st2) = map payload (sent st) @ [take batch_size (drop i json_logs)]"
      by (simp add: st2_def st1_def)
    show ?thesis
      using ih step c p by auto
  qed
qed

lemma concat_chunks: "0 < n \<Longrightarrow> concat (chunks n xs) = xs"
proof (induction n xs rule: chunks.induct)
  case (1 n xs)
  then show ?case by (subst chunks.simps) auto
qed

lemma handler_delivers:
  assumes "responds post" and "env ''DATASET_NAME'' = Some dataset"
    and "env ''AXIOM_API_TOKEN'' = Some token"
  shows "\<exists>json_logs st.
           parse_lines env lines = Inr json_logs \<and> length json_logs = length lines
           \<and> (\<forall>i < length lines. parse_elb_log env (lines ! i) = Inr (json_logs ! i))
           \<and> lambda_handler env post (Inr lines)
               = (Inr \<lparr>statusCode = 200,
                       message = ''Processed '' @ str_nat (length lines) @ '' logs''\<rparr>, st)
           \<and> map payload (sent st) = chunks batch_size json_logs"
proof -
  from parse_lines_total[of env lines] obtain js where js: "parse_lines env lines = Inr js"
    "length js = length lines" "\<forall>i < length lines. parse_elb_log env (lines ! i) = Inr (js ! i)"
    by blast
  from send_batches_all[OF assms(1), of dataset token js 0 "\<lparr>sent = [], logged = []\<rparr>"]
  obtain st where st: "send_batches post dataset token js 0 \<lparr>sent = [], logged = []\<rparr> = (Inr (), st)"
    "map payload (sent st) = chunks batch_size js"
    by auto
  have "lambda_handler env post (Inr lines)
               = (Inr \<lparr>statusCode = 200,
                       message = ''Processed '' @ str_nat (length lines) @ '' logs''\<rparr>, st)"
    using js st assms(2,3) by (simp add: lambda_handler_def deliver_def)
  then show ?thesis using js st by blast
qed

text \<open>
  Claim C4: for 120 lines (so 120 records) and the batch size 50, whatever status codes
  the sink answers with, the handler makes exactly three calls, whose payloads are the
  first 50 records, the next 50 and the last 20, in this order, and it returns the count
  of all 120 records; a status other than 200 does not stop the loop.
\<close>

theorem C4_batches:
  assumes "length lines = 120" and "responds post"
    and "env ''DATASET_NAME'' = Some dataset" and "env ''AXIOM_API_TOKEN'' = Some token"
  shows "\<exists>json_logs st.
           parse_lines env lines = Inr json_logs \<and> length json_logs = 120
           \<and> lambda_handler env post (Inr lines)
               = (Inr \<lparr>statusCode = 200, message = ''Processed 120 logs''\<rparr>, st)
           \<and> map payload (sent st)
               = [take 50 json_logs, take 50 (drop 50 json_logs), drop 100 json_logs]
           \<and> map (\<lambda>r. length (payload r)) (sent st) = [50, 50, 20]"
proof -
  from handler_delivers[OF assms(2,3,4), of lines] obtain js st where
    js: "parse_lines env lines = Inr js" "length js = length lines"
    and h: "lambda_handler env post (Inr lines)
               = (Inr \<lparr>statusCode = 200,
                       message = ''Processed '' @ str_nat (length lines) @ '' logs''\<rparr>, st)"
    and p: "map payload (sent st) = chunks batch_size js"
    by blast
  have n: "str_nat 120 = ''120''"
    by code_simp
  have l: "length js = 120"
    using js assms(1) by simp
  have c3: "chunks 50 (drop 100 js) = [drop 100 js]"
    using l by (subst chunks.simps, subst chunks.simps) simp
  have c2: "chunks 50 (drop 50 js) = [take 50 (drop 50 js), drop 100 js]"
    using l c3 by (subst chunks.simps) simp
  have c: "chunks batch_size js = [take 50 js, take 50 (drop 50 js), drop 100 js]"
    using l c2 by (subst chunks.simps) (auto simp: batch_size_def)
  have "map (\<lambda>r. length (payload r)) (sent st) = map length (map payload (sent st))"
    by simp
  also have "\<dots> = [50, 50, 20]"
    using l by (simp add: p c)
  finally have len: "map (\<lambda>r. length (payload r)) (sent st) = [50, 50, 20]" .
  show ?thesis
    using js l h p c len n assms(1) by auto
qed

theorem C4_witness:
  "length (replicate 120 ''garbage'') = 120 \<and> responds flaky_sink
   \<and> sample_env ''DATASET_NAME'' = Some ''logs'' \<and> sample_env ''AXIOM_API_TOKEN'' = Some ''secret''
   \<and> (\<exists>json_logs st.
           parse_lines sample_env (replicate 120 ''garbage'') = Inr json_logs
           \<and> length json_logs = 120
           \<and> lambda_handler sample_env flaky_sink (Inr (replicate 120 ''garbage''))
               = (Inr \<lparr>statusCode = 200, message = ''Processed 120 logs''\<rparr>, st)
           \<and> map payload (sent st)
               = [take 50 json_logs, take 50 (drop 50 json_logs), drop 100 json_logs]
           \<and> map (\<lambda>r. length (payload r)) (sent st) = [50, 50, 20])"
proof -
  have 1: "length (replicate 120 ''garbage'') = 120" by simp
  have 2: "responds flaky_sink" by (simp add: responds_def flaky_sink_def)
  have 3: "sample_env ''DATASET_NAME'' = Some ''logs''" by (simp add: sample_env_def)
  have 4: "sample_env ''AXIOM_API_TOKEN'' = Some ''secret''" by (simp add: sample_env_def)
  show ?thesis
    using C4_batches[OF 1 2 3 4] 1 2 3 4 by blast
qed

text \<open>
  Claim C5: for every line whose normalized form does not match the grammar, the parser
  returns the failure record: \<open>_time\<close> is the empty string, \<open>data\<close> holds the error marker,
  and no other field is there.  When the line is the \<open>i\<close>-th of a log file, the failure
  record is the \<open>i\<close>-th of the records sent to the sink.
\<close>

theorem C5_failure_record:
  assumes "re_match elb_pattern (normalize_line line) = None"
    and "i < length lines" and "lines ! i = line"
    and "responds post"
    and "env ''DATASET_NAME'' = Some dataset" and "env ''AXIOM_API_TOKEN'' = Some token"
  shows "parse_elb_log env line
           = Inr [(''_time'', JStr []),
                  (''data'', JObj [(''error'', JStr ''Failed to parse log line'')])]
         \<and> (\<exists>r st. lambda_handler env post (Inr lines) = (Inr r, st)
                \<and> length (concat (map payload (sent st))) = length lines
                \<and> concat (map payload (sent st)) ! i
                    = [(''_time'', JStr []),
                       (''data'', JObj [(''error'', JStr ''Failed to parse log line'')])])"
proof -
  have f: "parse_elb_log env line
           = Inr [(''_time'', JStr []),
                  (''data'', JObj [(''error'', JStr ''Failed to parse log line'')])]"
    using assms(1) by (simp add: parse_elb_log_def failure_record_def)
  from handler_delivers[OF assms(4,5,6), of lines] obtain js st where
    js: "length js = length lines"
      "\<forall>i < length lines. parse_elb_log env (lines ! i) = Inr (js ! i)"
    and h: "lambda_handler env post (Inr lines)
               = (Inr \<lparr>statusCode = 200,
                       message = ''Processed '' @ str_nat (length lines) @ '' logs''\<rparr>, st)"
    and p: "map payload (sent st) = chunks batch_size js"
    by blast
  have c: "concat (map payload (sent st)) = js"
    by (simp add: p concat_chunks batch_size_def)
  have "js ! i = [(''_time'', JStr []),
                  (''data'', JObj [(''error'', JStr ''Failed to parse log line'')])]"
    using js(2) assms(2,3) f by auto
  then show ?thesis
    using f h c js(1) by auto
qed

theorem C5_witness:
  "re_match elb_pattern (normalize_line ''garbage'') = None
   \<and> 1 < length [sample_line ''-'', ''garbage''] \<and> [sample_line ''-'', ''garbage''] ! 1 = ''garbage''
   \<and> responds flaky_sink
   \<and> sample_env ''DATASET_NAME'' = Some ''logs'' \<and> sample_env ''AXIOM_API_TOKEN'' = Some ''secret''
   \<and> parse_elb_log sample_env ''garbage''
           = Inr [(''_time'', JStr []),
                  (''data'', JObj [(''error'', JStr ''Failed to parse log line'')])]
   \<and> (\<exists>r st. lambda_handler sample_env flaky_sink (Inr [sample_line ''-'', ''garbage'']) = (Inr r, st)
                \<and> length (concat (map payload (sent st))) = length [sample_line ''-'', ''garbage'']
                \<and> concat (map payload (sent st)) ! 1
                    = [(''_time'', JStr []),
                       (''data'', JObj [(''error'', JStr ''Failed to parse log line'')])])"
proof -
  have 1: "re_match elb_pattern (normalize_line ''garbage'') = None" by code_simp
  have 2: "1 < length [sample_line ''-'', ''garbage'']" by simp
  have 3: "[sample_line ''-'', ''garbage''] ! 1 = ''garbage''" by simp
  have 4: "responds flaky_sink" by (simp add: responds_def flaky_sink_def)
  have 5: "sample_env ''DATASET_NAME'' = Some ''logs''" by (simp add: sample_env_def)
  have 6: "sample_env ''AXIOM_API_TOKEN'' = Some ''secret''" by (simp add: sample_env_def)
  show ?thesis
    using C5_failure_record[OF 1 2 3 4 5 6] 1 2 3 4 5 6 by blast
qed

lemma exec_minlen:
  "exec k s c = Some (s', c') \<Longrightarrow> length s' + sum_list (map iminlen k) \<le> length s"
proof (induction k s c rule: exec.induct)
  case (5 rs k s c)
  then show ?case by (simp add: comp_def)
next
  case (6 a b k s c)
  then show ?case by (auto split: option.splits)
next
  case (9 cs lo hi k x s c)
  then show ?case by (auto split: option.splits if_splits)
qed (auto split: if_splits)

lemma elb_minlen: "re_match elb_pattern s = Some (rest, c) \<Longrightarrow> 2 \<le> length s"
  using exec_minlen[of "[R elb_pattern]" s Map.empty rest c]
  by (simp add: re_match_def elb_pattern_def)

lemma length_replace_from:
  "min (length s) (length new) \<le> length (replace_from old new s)"
  by (induction old new s rule: replace_from.induct) auto

lemma length_str_replace:
  "min (length s) (length new) \<le> length (str_replace s old new)"
  using length_replace_from[of s new old] by (auto simp: str_replace_def)

lemma length_redact: "2 \<le> length l \<Longrightarrow> 2 \<le> length (redact env l)"
proof -
  assume a: "2 \<le> length l"
  let ?m = "str_replace l (environ_get env ''CERT_ARN'' []) ''CERT_ARN''"
  have "min (length l) 8 \<le> length ?m"
    using length_str_replace[of l "''CERT_ARN''" "environ_get env ''CERT_ARN'' []"] by simp
  then have 1: "2 \<le> length ?m" using a by simp
  have "min (length ?m) 10 \<le> length (redact env l)"
    using length_str_replace[of ?m "''ACCOUNT_ID''" "environ_get env ''ACCOUNT_ID'' []"]
    by (simp add: redact_def)
  then show ?thesis using 1 by simp
qed

lemma in_update: "(k, v) \<in> set (AList.update k' x al) \<Longrightarrow> v = x \<or> (k, v) \<in> set al"
  by (induction al) (auto split: if_splits)

lemma normalize_value_no_sentinel: "normalize_value v \<noteq> ''-''"
  by (cases v) (auto simp: normalize_value_def)

lemma in_normalize_values: "(k, v) \<in> set (normalize_values d) \<Longrightarrow> v \<noteq> ''-''"
  by (auto simp: normalize_values_def normalize_value_no_sentinel)

lemma isoformat_nonempty: "isoformat t \<noteq> []"
  by (simp add: isoformat_def)

lemma iso_time_sentinel: "iso_time_of tm = ''-'' \<longleftrightarrow> tm = ''-''"
proof
  assume a: "iso_time_of tm = ''-''"
  show "tm = ''-''"
  proof (cases "strptime tm")
    case None
    then show ?thesis using a by (simp add: iso_time_of_def)
  next
    case (Some t)
    then have "isoformat t @ ''Z'' = ''-''" using a by (simp add: iso_time_of_def)
    then have "length (isoformat t @ ''Z'') = 1" by simp
    then show ?thesis using isoformat_nonempty[of t] by simp
  qed
next
  assume "tm = ''-''"
  moreover have "strptime ''-'' = None" by code_simp
  ultimately show "iso_time_of tm = ''-''" by (simp add: iso_time_of_def)
qed

text \<open>
  Claim C2, as amended: for every line that matches the grammar, no field of the record
  other than \<open>_time\<close> is the sentinel \<open>-\<close>.  The field \<open>_time\<close> does not go through the
  normalization of the sentinel: it is \<open>-\<close> exactly when the time token is \<open>-\<close>.
\<close>

theorem C2_no_sentinel_but_time:
  assumes "re_match elb_pattern (normalize_line line) = Some (rest, c)"
    and "c ''time'' = Some tm"
  shows "\<exists>record. parse_elb_log env line = Inr record
           \<and> (\<forall>(key, v) \<in> set record. key \<noteq> ''_time'' \<longrightarrow> v \<noteq> JStr ''-'')
           \<and> (field (parse_elb_log env line) ''_time'' = Some (JStr ''-'') \<longleftrightarrow> tm = ''-'')"
proof -
  from parse_matched[OF assms(1), of env] assms(2) obtain cp tp arn where
    p: "parse_elb_log env line =
       Inr ((''_time'', JStr (iso_time_of tm))
            # map (\<lambda>(key, v). (key, JStr v))
                (fields env (normalize_line line) (groupdict elb_pattern c) cp tp arn))"
    by auto
  have raw: "redact env (normalize_line line) \<noteq> ''-''"
    using length_redact[OF elb_minlen[OF assms(1)], of env] by auto
  have f: "v \<noteq> ''-''"
    if "(key, v) \<in> set (fields env (normalize_line line) (groupdict elb_pattern c) cp tp arn)"
    for key v
    using that raw unfolding fields_def
    by (auto dest!: in_update dest: in_normalize_values)
  have t: "field (parse_elb_log env line) ''_time'' = Some (JStr ''-'') \<longleftrightarrow> tm = ''-''"
    using iso_time_sentinel[of tm] by (simp add: p field_def)
  show ?thesis
    using p f t by auto
qed

text \<open>The claim as written fails: a line whose time token is \<open>-\<close> matches the grammar,
  and its \<open>_time\<close> field is the sentinel.\<close>

theorem C2_counterexample:
  "field (parse_elb_log sample_env (sample_line ''-'')) ''_time'' = Some (JStr ''-'')"
  by code_simp

theorem C2_witness:
  "(\<exists>record. parse_elb_log sample_env (sample_line ''not-a-time'') = Inr record
           \<and> (\<forall>(key, v) \<in> set record. key \<noteq> ''_time'' \<longrightarrow> v \<noteq> JStr ''-'')
           \<and> (field (parse_elb_log sample_env (sample_line ''not-a-time'')) ''_time''
                 = Some (JStr ''-'') \<longleftrightarrow> ''not-a-time'' = ''-''))
   \<and> field (parse_elb_log sample_env (sample_line ''not-a-time'')) ''target_port'' = Some (JStr [])"
proof -
  have "map_option (\<lambda>(rest, c). c ''time'')
          (re_match elb_pattern (normalize_line (sample_line ''not-a-time'')))
        = Some (Some ''not-a-time'')"
    by code_simp
  then obtain rest c where
    m: "re_match elb_pattern (normalize_line (sample_line ''not-a-time'')) = Some (rest, c)"
    and t: "c ''time'' = Some ''not-a-time''"
    by auto
  have "field (parse_elb_log sample_env (sample_line ''not-a-time'')) ''target_port'' = Some (JStr [])"
    by code_simp
  then show ?thesis
    using C2_no_sentinel_but_time[OF m t, of sample_env] by blast
qed

lemma accepts_items_append:
  "accepts_items (map R rs @ k) w \<longleftrightarrow> (\<exists>u v. w = u @ v \<and> accepts_seq rs u \<and> accepts_items k v)"
proof (induction rs arbitrary: w)
  case Nil
  then show ?case by simp
next
  case (Cons r rs)
  show ?case
    apply (simp add: Cons)
    by (metis append.assoc)
qed

lemma accepts_items_skip:
  "\<exists>w. t = w @ s' \<and> accepts_items k w
     \<Longrightarrow> \<exists>w. t = w @ s' \<and> accepts_items (R (Rep cs 0 hi) # k) w"
proof -
  assume "\<exists>w. t = w @ s' \<and> accepts_items k w"
  then obtain w where w: "t = w @ s'" "accepts_items k w" by blast
  have "w = [] @ w \<and> accepts (Rep cs 0 hi) [] \<and> accepts_items k w"
    using w by simp
  then have "accepts_items (R (Rep cs 0 hi) # k) w"
    unfolding accepts_items.simps by blast
  with w show ?thesis by blast
qed

lemma accepts_items_more:
  assumes "\<exists>w. s = w @ s' \<and> accepts_items (R (Rep cs (lo - 1) hi') # k) w" and "cmatch cs x"
  shows "\<exists>w. x # s = w @ s' \<and> accepts_items (R (Rep cs lo hi) # k) w"
proof -
  from assms obtain u v where
    "s = (u @ v) @ s'" "lo - 1 \<le> length u" "list_all (cmatch cs) u" "accepts_items k v"
    by auto
  then have "x # s = ((x # u) @ v) @ s' \<and> lo \<le> length (x # u) \<and> list_all (cmatch cs) (x # u)
      \<and> accepts_items k v"
    using assms(2) by auto
  then show ?thesis
    unfolding accepts_items.simps accepts.simps by blast
qed

lemma exec_accepts:
  "exec k s c = Some (s', c') \<Longrightarrow> \<exists>w. s = w @ s' \<and> accepts_items k w"
proof (induction k s c rule: exec.induct)
  case (4 cs k x s c)
  then obtain w where "cmatch cs x" "s = w @ s'" "accepts_items k w"
    by (auto split: if_splits)
  then have "x # s = ([x] @ w) @ s' \<and> accepts (Atom cs) [x] \<and> accepts_items k w"
    by simp
  then show ?case
    unfolding accepts_items.simps by blast
next
  case (5 rs k s c)
  then show ?case by (auto simp: accepts_items_append)
next
  case (6 a b k s c)
  then show ?case by (auto split: option.splits)
next
  case (7 n r k s c)
  then show ?case by auto
next
  case (8 cs lo hi k c)
  then show ?case by (auto split: if_splits)
next
  case (9 cs lo hi k x s c)
  show ?case
  proof (cases "cmatch cs x \<and> may_take hi")
    case True
    show ?thesis
    proof (cases "exec (R (Rep cs (lo - 1) (less1 hi)) # k) s c")
      case None
      with True 9 have "lo = 0" "exec k (x # s) c = Some (s', c')"
        by (auto split: if_splits)
      with "9.IH"(2)[OF True None] show ?thesis
        using accepts_items_skip by blast
    next
      case (Some a)
      with True 9 have e: "exec (R (Rep cs (lo - 1) (less1 hi)) # k) s c = Some (s', c')"
        by simp
      from accepts_items_more[OF "9.IH"(1)[OF True e]] True show ?thesis
        by blast
    qed
  next
    case False
    with 9 have "lo = 0" "exec k (x # s) c = Some (s', c')"
      by (auto split: if_splits)
    with "9.IH"(3)[OF False] show ?thesis
      using accepts_items_skip by blast
  qed
qed auto

lemma space_digit_Cons: "space_digit (x # s) \<longleftrightarrow> (is_space x \<and> starts_digit s) \<or> space_digit s"
  by (cases s) (auto simp: starts_digit_def)

lemma space_digit_append:
  "space_digit (u @ v) \<longleftrightarrow>
     space_digit u \<or> space_digit v \<or> (u \<noteq> [] \<and> is_space (last u) \<and> starts_digit v)"
proof (induction u)
  case Nil
  then show ?case by simp
next
  case (Cons x u)
  show ?case
  proof (cases u)
    case Nil
    then show ?thesis by (auto simp: space_digit_Cons starts_digit_def)
  next
    case (Cons y u')
    with Cons.IH show ?thesis
      by (auto simp: space_digit_Cons starts_digit_def)
  qed
qed

lemma space_digit_drop: "space_digit (drop n s) \<Longrightarrow> space_digit s"
  using space_digit_append[of "take n s" "drop n s"] by simp

lemma accepts_seq_append:
  "accepts_seq (xs @ ys) w \<longleftrightarrow> (\<exists>u v. w = u @ v \<and> accepts_seq xs u \<and> accepts_seq ys v)"
proof (induction xs arbitrary: w)
  case Nil
  then show ?case by simp
next
  case (Cons r rs)
  show ?case
    apply (simp add: Cons)
    by (metis append.assoc)
qed

lemma elb_split:
  "\<exists>pre post. elb_pattern = Seq (pre @ [sp, Grp ''sent_bytes'' (some Digit)] @ post)"
  apply (rule exI[of _ "take 21 (case elb_pattern of Seq rs \<Rightarrow> rs | _ \<Rightarrow> [])"])
  apply (rule exI[of _ "drop 23 (case elb_pattern of Seq rs \<Rightarrow> rs | _ \<Rightarrow> [])"])
  apply (simp add: elb_pattern_def eval_nat_numeral)
  done

lemma elb_space_digit:
  assumes "re_match elb_pattern s = Some (rest, c)"
  shows "space_digit s"
proof -
  from exec_accepts[OF assms[unfolded re_match_def]] obtain w where
    w: "s = w @ rest" "accepts elb_pattern w"
    by auto
  from elb_split obtain pre post where
    e: "elb_pattern = Seq (pre @ [sp, Grp ''sent_bytes'' (some Digit)] @ post)" by blast
  have "accepts_seq (pre @ [sp, Grp ''sent_bytes'' (some Digit)] @ post) w"
    using w(2) unfolding e by simp
  then obtain u m where m: "w = u @ m" "accepts_seq ([sp, Grp ''sent_bytes'' (some Digit)] @ post) m"
    unfolding accepts_seq_append by blast
  from m(2) obtain x d v where x: "m = x # d @ v" "is_space x" "1 \<le> length d"
    "list_all (cmatch Digit) d"
    by auto
  then obtain y d' where "d = y # d'" "is_digit y"
    by (cases d) auto
  with x m(1) have "w = (u @ [x]) @ (y # d' @ v)" "is_space x" "is_digit y"
    by auto
  then have "space_digit w"
    by (simp add: space_digit_append starts_digit_def)
  then show ?thesis
    using w(1) by (simp add: space_digit_append)
qed

lemma no_space_no_pair: "list_all (\<lambda>x. \<not> is_space x) u \<Longrightarrow> \<not> space_digit u"
  by (induction u) (auto simp: space_digit_Cons)

lemma inert_last: "inert new \<Longrightarrow> \<not> is_space (last new)"
  by (auto simp: inert_def list_all_iff)

lemma starts_digit_append: "u \<noteq> [] \<Longrightarrow> starts_digit (u @ v) = starts_digit u"
  by (cases u) (auto simp: starts_digit_def)

lemma interleave_no_pair:
  assumes "inert new"
  shows "\<not> space_digit (new @ concat (map (\<lambda>x. x # new) s))"
proof (induction s)
  case Nil
  then show ?case using assms by (simp add: inert_def no_space_no_pair)
next
  case (Cons x s)
  have "new @ concat (map (\<lambda>x. x # new) (x # s))
      = (new @ [x]) @ (new @ concat (map (\<lambda>x. x # new) s))"
    by simp
  moreover have "\<not> space_digit (new @ [x])"
    using assms inert_last[OF assms]
    by (auto simp: space_digit_append inert_def no_space_no_pair)
  moreover have "\<not> starts_digit (new @ concat (map (\<lambda>x. x # new) s))"
    using assms by (simp add: starts_digit_append inert_def)
  ultimately show ?case
    using Cons by (simp only: space_digit_append) simp
qed

lemma replace_from_no_pair:
  "inert new \<Longrightarrow>
     (space_digit (replace_from old new s) \<longrightarrow> space_digit s)
     \<and> (starts_digit (replace_from old new s) \<longrightarrow> starts_digit s)"
proof (induction old new s rule: replace_from.induct)
  case (1 old new)
  then show ?case by simp
next
  case (2 old new x s)
  show ?case
  proof (cases "old \<noteq> [] \<and> prefix old (x # s)")
    case True
    have r: "replace_from old new (x # s) = new @ replace_from old new (drop (length old) (x # s))"
      using True by simp
    have "\<not> starts_digit (replace_from old new (x # s))"
      using "2.prems" unfolding r by (simp add: starts_digit_append inert_def)
    moreover have "space_digit (x # s)" if "space_digit (replace_from old new (x # s))"
    proof -
      from that have "space_digit (replace_from old new (drop (length old) (x # s)))"
        using "2.prems" inert_last[OF "2.prems"] unfolding r
        by (auto simp: space_digit_append inert_def no_space_no_pair)
      with "2.IH"(1)[OF True "2.prems"] have "space_digit (drop (length old) (x # s))"
        by blast
      then show ?thesis by (rule space_digit_drop)
    qed
    ultimately show ?thesis by blast
  next
    case False
    have r: "replace_from old new (x # s) = x # replace_from old new s"
      using False by auto
    show ?thesis
      using "2.IH"(2)[OF False "2.prems"] unfolding r
      by (auto simp: space_digit_Cons starts_digit_def)
  qed
qed

lemma str_replace_no_pair:
  assumes "inert new" and "\<not> space_digit s"
  shows "\<not> space_digit (str_replace s old new)"
  using assms interleave_no_pair[OF assms(1), of s] replace_from_no_pair[OF assms(1), of old s]
  by (auto simp: str_replace_def)

lemma str_replace_empty_no_pair:
  assumes "inert new"
  shows "\<not> space_digit (str_replace s [] new)"
  using interleave_no_pair[OF assms, of s] by (simp add: str_replace_def)

lemma inert_placeholders: "inert ''CERT_ARN''" "inert ''ACCOUNT_ID''"
  by (simp_all add: inert_def starts_digit_def is_space_def is_digit_def)

lemma redact_no_pair:
  assumes "environ_get env ''CERT_ARN'' [] = [] \<or> environ_get env ''ACCOUNT_ID'' [] = []"
  shows "\<not> space_digit (redact env l)"
  using assms str_replace_empty_no_pair[OF inert_placeholders(2)]
    str_replace_no_pair[OF inert_placeholders(2) str_replace_empty_no_pair[OF inert_placeholders(1)]]
  by (auto simp: redact_def)

lemma re_match_suffix: "re_match r s = Some (rest, c) \<Longrightarrow> \<exists>w. s = w @ rest"
  using exec_accepts[of "[R r]" s Map.empty rest c] by (auto simp: re_match_def)

lemma re_sub_no_pair:
  "inert repl \<Longrightarrow>
     (space_digit (re_sub r repl s) \<longrightarrow> space_digit s)
     \<and> (starts_digit (re_sub r repl s) \<longrightarrow> starts_digit s)"
proof (induction r repl s rule: re_sub.induct)
  case (1 r repl)
  then show ?case by simp
next
  case (2 r repl x s)
  show ?case
  proof (cases "\<exists>rest c. re_match r (x # s) = Some (rest, c) \<and> length rest < length (x # s)")
    case True
    then obtain rest c where m: "re_match r (x # s) = Some (rest, c)"
      and l: "length rest < length (x # s)" by blast
    have r: "re_sub r repl (x # s) = repl @ re_sub r repl rest"
      using m l by simp
    from re_match_suffix[OF m] obtain w where w: "x # s = w @ rest" by blast
    have "\<not> starts_digit (re_sub r repl (x # s))"
      using "2.prems" unfolding r by (simp add: starts_digit_append inert_def)
    moreover have "space_digit (x # s)" if "space_digit (re_sub r repl (x # s))"
    proof -
      from that have "space_digit (re_sub r repl rest)"
        using "2.prems" inert_last[OF "2.prems"] unfolding r
        by (auto simp: space_digit_append inert_def no_space_no_pair)
      with "2.IH"(2)[OF m refl l "2.prems"] have "space_digit rest"
        by blast
      then show ?thesis unfolding w by (simp add: space_digit_append)
    qed
    ultimately show ?thesis by blast
  next
    case False
    have r: "re_sub r repl (x # s) = x # re_sub r repl s"
      using False by (auto split: option.splits)
    have ih: "(space_digit (re_sub r repl s) \<longrightarrow> space_digit s)
       \<and> (starts_digit (re_sub r repl s) \<longrightarrow> starts_digit s)"
    proof (cases "re_match r (x # s)")
      case None
      then show ?thesis using "2.IH"(1) "2.prems" by blast
    next
      case (Some a)
      then obtain rest c where a: "a = (rest, c)" by (cases a)
      with Some False have "\<not> length rest < length (x # s)" by auto
      with "2.IH"(3)[OF Some[unfolded a] refl _ "2.prems"] show ?thesis by blast
    qed
    show ?thesis
      using ih unfolding r by (auto simp: space_digit_Cons starts_digit_def)
  qed
qed

lemma normalize_line_pair: "space_digit (normalize_line line) \<Longrightarrow> space_digit line"
proof -
  have "inert ''app/k8s-default-ingress''"
    by (simp add: inert_def starts_digit_def is_space_def is_digit_def)
  from re_sub_no_pair[OF this, of path_pattern line] show "space_digit (normalize_line line) \<Longrightarrow> space_digit line"
    by (simp add: normalize_line_def)
qed

text \<open>
  Claim C10: when the value of \<open>CERT_ARN\<close> or of \<open>ACCOUNT_ID\<close> is empty (or the variable is
  not set), then for every line that matches the grammar \<open>raw_log\<close> is neither the line
  nor its normalized form: a replacement of the empty string puts the placeholder before
  every character and at the end, and after it no white space is followed by a digit in
  \<open>raw_log\<close>, as it is in every line that matches.
\<close>

theorem C10_empty_secret_corrupts_raw_log:
  assumes "re_match elb_pattern (normalize_line line) = Some (rest, c)"
    and "environ_get env ''CERT_ARN'' [] = [] \<or> environ_get env ''ACCOUNT_ID'' [] = []"
  shows "field (parse_elb_log env line) ''raw_log'' \<noteq> Some (JStr line)
       \<and> field (parse_elb_log env line) ''raw_log'' \<noteq> Some (JStr (normalize_line line))
       \<and> str_replace s [] new = new @ concat (map (\<lambda>x. x # new) s)"
proof -
  have raw: "field (parse_elb_log env line) ''raw_log'' = Some (JStr (redact env (normalize_line line)))"
  proof -
    from parse_matched[OF assms(1), of env] obtain tm cp tp arn where
      "parse_elb_log env line =
         Inr ((''_time'', JStr (iso_time_of tm))
              # map (\<lambda>(key, v). (key, JStr v))
                  (fields env (normalize_line line) (groupdict elb_pattern c) cp tp arn))"
      by blast
    then show ?thesis
      by (simp add: field_def map_of_JStr fields_def update_conv')
  qed
  have 1: "space_digit (normalize_line line)"
    by (rule elb_space_digit[OF assms(1)])
  then have 2: "space_digit line"
    by (rule normalize_line_pair)
  have 3: "\<not> space_digit (redact env (normalize_line line))"
    by (rule redact_no_pair[OF assms(2)])
  show ?thesis
    using raw 1 2 3 by (auto simp: str_replace_def)
qed

theorem C10_witness:
  "re_match elb_pattern (normalize_line (sample_line ''-'')) \<noteq> None
   \<and> (environ_get Map.empty ''CERT_ARN'' [] = [] \<or> environ_get Map.empty ''ACCOUNT_ID'' [] = [])
   \<and> field (parse_elb_log Map.empty (sample_line ''-'')) ''raw_log'' \<noteq> Some (JStr (sample_line ''-''))
   \<and> field (parse_elb_log Map.empty (sample_line ''-'')) ''raw_log''
        \<noteq> Some (JStr (normalize_line (sample_line ''-'')))
   \<and> str_replace ''ab'' [] ''X'' = ''XaXbX''"
proof -
  have ne: "re_match elb_pattern (normalize_line (sample_line ''-'')) \<noteq> None"
    by code_simp
  then obtain rest c where
    m: "re_match elb_pattern (normalize_line (sample_line ''-'')) = Some (rest, c)"
    by auto
  have e: "environ_get Map.empty ''CERT_ARN'' [] = [] \<or> environ_get Map.empty ''ACCOUNT_ID'' [] = []"
    by (simp add: environ_get_def)
  show ?thesis
    using ne e C10_empty_secret_corrupts_raw_log[OF m e, of "''ab''" "''X''"] by simp
qed

lemma prefix_replace_from:
  "set u \<inter> set new = {} \<Longrightarrow> new \<noteq> [] \<Longrightarrow> prefix u (replace_from old new s) \<Longrightarrow> prefix u s"
proof (induction old new s arbitrary: u rule: replace_from.induct)
  case (1 old new)
  then show ?case by simp
next
  case (2 old new x s)
  show ?case
  proof (cases "old \<noteq> [] \<and> prefix old (x # s)")
    case True
    then have r: "replace_from old new (x # s) = new @ replace_from old new (drop (length old) (x # s))"
      by simp
    have "u = []"
    proof (rule ccontr)
      assume "u \<noteq> []"
      then obtain y u' where u: "u = y # u'" by (cases u) auto
      obtain z new' where n: "new = z # new'" using "2.prems"(2) by (cases new) auto
      from "2.prems"(3)[unfolded r] have "y = z" unfolding u n by simp
      then show False using "2.prems"(1) u n by auto
    qed
    then show ?thesis by simp
  next
    case False
    then have r: "replace_from old new (x # s) = x # replace_from old new s"
      by auto
    show ?thesis
    proof (cases u)
      case Nil
      then show ?thesis by simp
    next
      case (Cons y u')
      with "2.prems" have "y = x" "prefix u' (replace_from old new s)" "set u' \<inter> set new = {}"
        unfolding r by auto
      with "2.IH"(2)[OF False _ "2.prems"(2), of u'] Cons show ?thesis by simp
    qed
  qed
qed

lemma sublist_behind:
  "set u \<inter> set new = {} \<Longrightarrow> u \<noteq> [] \<Longrightarrow> sublist u (new @ t) \<Longrightarrow> sublist u t"
proof (induction new)
  case Nil
  then show ?case by simp
next
  case (Cons z new)
  from Cons.prems have "\<not> prefix u (z # new @ t)"
    by (cases u) auto
  with Cons.prems(3) have "sublist u (new @ t)"
    by (simp add: sublist_Cons_right)
  with Cons show ?case by auto
qed

lemma sublist_replace_from:
  "set u \<inter> set new = {} \<Longrightarrow> u \<noteq> [] \<Longrightarrow> new \<noteq> [] \<Longrightarrow>
     sublist u (replace_from old new s) \<Longrightarrow> sublist u s"
proof (induction old new s rule: replace_from.induct)
  case (1 old new)
  then show ?case by simp
next
  case (2 old new x s)
  show ?case
  proof (cases "old \<noteq> [] \<and> prefix old (x # s)")
    case True
    then have r: "replace_from old new (x # s) = new @ replace_from old new (drop (length old) (x # s))"
      by simp
    from "2.prems"(4) have "sublist u (replace_from old new (drop (length old) (x # s)))"
      unfolding r by (rule sublist_behind[OF "2.prems"(1,2)])
    with "2.IH"(1)[OF True "2.prems"(1,2,3)] have "sublist u (drop (length old) (x # s))"
      by blast
    then show ?thesis
      by (meson sublist_drop sublist_order.order_trans)
  next
    case False
    then have r: "replace_from old new (x # s) = x # replace_from old new s"
      by auto
    from "2.prems"(4) consider "prefix u (x # replace_from old new s)"
      | "sublist u (replace_from old new s)"
      unfolding r by (auto simp: sublist_Cons_right)
    then show ?thesis
    proof cases
      case 1
      then have "prefix u (replace_from old new (x # s))" unfolding r .
      from prefix_replace_from[OF "2.prems"(1,3) this] show ?thesis
        by (rule prefix_imp_sublist)
    next
      case 2
      with "2.IH"(2)[OF False "2.prems"(1,2,3)] show ?thesis
        by (auto simp: sublist_Cons_right)
    qed
  qed
qed

lemma replace_from_removes:
  "set old \<inter> set new = {} \<Longrightarrow> old \<noteq> [] \<Longrightarrow> new \<noteq> [] \<Longrightarrow>
     \<not> sublist old (replace_from old new s)"
proof (induction old new s rule: replace_from.induct)
  case (1 old new)
  then show ?case by simp
next
  case (2 old new x s)
  show ?case
  proof (cases "old \<noteq> [] \<and> prefix old (x # s)")
    case True
    then have r: "replace_from old new (x # s) = new @ replace_from old new (drop (length old) (x # s))"
      by simp
    show ?thesis
      unfolding r using sublist_behind[OF "2.prems"(1,2)] "2.IH"(1)[OF True "2.prems"]
      by blast
  next
    case False
    then have r: "replace_from old new (x # s) = x # replace_from old new s"
      by auto
    have "\<not> prefix old (x # replace_from old new s)"
    proof
      assume "prefix old (x # replace_from old new s)"
      then have "prefix old (replace_from old new (x # s))" unfolding r .
      from prefix_replace_from[OF "2.prems"(1,3) this] False "2.prems"(2) show False by simp
    qed
    then show ?thesis
      unfolding r using "2.IH"(2)[OF False "2.prems"] by (simp add: sublist_Cons_right)
  qed
qed

lemma length_replace_from_count:
  "length (replace_from old new s) + count_from old s * length old
     = length s + count_from old s * length new"
proof (induction old new s rule: replace_from.induct)
  case (1 old new)
  then show ?case by simp
next
  case (2 old new x s)
  show ?case
  proof (cases "old \<noteq> [] \<and> prefix old (x # s)")
    case True
    then have "length old \<le> length (x # s)"
      by (auto dest: prefix_length_le)
    with True "2.IH"(1)[OF True] show ?thesis
      by simp
  next
    case False
    with "2.IH"(2)[OF False] show ?thesis
      by auto
  qed
qed

text \<open>
  Claim C8, as amended: for every line that matches the grammar, when both secrets are
  not empty, the certificate secret shares no character with either placeholder and the
  account secret none with its own placeholder, \<open>raw_log\<close> holds no occurrence of either
  secret.  Each replaced occurrence gives one placeholder: the occurrences of the
  certificate secret in the normalized line, found from the left and not overlapping, and
  then those of the account secret in the text that the first replacement leaves (the
  lengths of the texts differ by just that).
\<close>

theorem C8_redaction:
  assumes "re_match elb_pattern (normalize_line line) = Some (rest, c)"
    and "cert = environ_get env ''CERT_ARN'' []" and "acct = environ_get env ''ACCOUNT_ID'' []"
    and "cert \<noteq> []" and "acct \<noteq> []"
    and "set cert \<inter> set ''CERT_ARN'' = {}" and "set cert \<inter> set ''ACCOUNT_ID'' = {}"
    and "set acct \<inter> set ''ACCOUNT_ID'' = {}"
  shows "\<exists>raw mid. field (parse_elb_log env line) ''raw_log'' = Some (JStr raw)
           \<and> \<not> sublist cert raw \<and> \<not> sublist acct raw
           \<and> mid = str_replace (normalize_line line) cert ''CERT_ARN''
           \<and> length mid + str_count (normalize_line line) cert * length cert
                = length (normalize_line line) + str_count (normalize_line line) cert * 8
           \<and> length raw + str_count mid acct * length acct
                = length mid + str_count mid acct * 10"
proof -
  let ?l = "normalize_line line"
  let ?mid = "replace_from cert ''CERT_ARN'' ?l"
  let ?raw = "replace_from acct ''ACCOUNT_ID'' ?mid"
  have raw: "field (parse_elb_log env line) ''raw_log'' = Some (JStr (redact env ?l))"
  proof -
    from parse_matched[OF assms(1), of env] obtain tm cp tp arn where
      "parse_elb_log env line =
         Inr ((''_time'', JStr (iso_time_of tm))
              # map (\<lambda>(key, v). (key, JStr v))
                  (fields env ?l (groupdict elb_pattern c) cp tp arn))"
      by blast
    then show ?thesis
      by (simp add: field_def map_of_JStr fields_def update_conv')
  qed
  have m: "str_replace ?l cert ''CERT_ARN'' = ?mid"
    using assms(4) by (simp add: str_replace_def)
  have r: "redact env ?l = ?raw"
    using assms(2,3,4,5) by (simp add: redact_def str_replace_def)
  have 1: "\<not> sublist cert ?mid"
    by (rule replace_from_removes[OF assms(6,4)]) simp
  have 2: "\<not> sublist cert ?raw"
    using sublist_replace_from[OF assms(7,4), of acct ?mid] 1 by auto
  have 3: "\<not> sublist acct ?raw"
    by (rule replace_from_removes[OF assms(8,5)]) simp
  have 4: "length ?mid + str_count ?l cert * length cert = length ?l + str_count ?l cert * 8"
    using length_replace_from_count[of cert "''CERT_ARN''" ?l] assms(4)
    by (simp add: str_count_def)
  have 5: "length ?raw + str_count ?mid acct * length acct = length ?mid + str_count ?mid acct * 10"
    using length_replace_from_count[of acct "''ACCOUNT_ID''" ?mid] assms(5)
    by (simp add: str_count_def)
  show ?thesis
    using raw r m 2 3 4 5 by auto
qed

text \<open>The claim as written fails.  In the sample line the account secret \<open>57\<close> occurs
  twice, once inside the certificate secret \<open>arn:57:c\<close>, which occurs once: three
  occurrences, two placeholders.  And an account secret \<open>N\<close> is still found in
  \<open>raw_log\<close>, inside the placeholders.\<close>

theorem C8_counterexample:
  "field (parse_elb_log sample_env (sample_line ''-'')) ''raw_log''
     = Some (JStr (redact sample_env (normalize_line (sample_line ''-''))))
   \<and> str_count (redact sample_env (normalize_line (sample_line ''-''))) ''CERT_ARN''
       + str_count (redact sample_env (normalize_line (sample_line ''-''))) ''ACCOUNT_ID'' = 2
   \<and> str_count (sample_line ''-'') ''arn:57:c'' + str_count (sample_line ''-'') ''57'' = 3
   \<and> field (parse_elb_log [''CERT_ARN'' \<mapsto> ''arn:57:c'', ''ACCOUNT_ID'' \<mapsto> ''N''] (sample_line ''-''))
         ''raw_log''
     = Some (JStr (redact [''CERT_ARN'' \<mapsto> ''arn:57:c'', ''ACCOUNT_ID'' \<mapsto> ''N'']
                     (normalize_line (sample_line ''-''))))
   \<and> str_count (redact [''CERT_ARN'' \<mapsto> ''arn:57:c'', ''ACCOUNT_ID'' \<mapsto> ''N'']
                     (normalize_line (sample_line ''-''))) ''N'' \<noteq> 0"
  by code_simp

theorem C8_witness:
  "re_match elb_pattern (normalize_line (sample_line ''-'')) \<noteq> None
   \<and> ''arn:57:c'' = environ_get sample_env ''CERT_ARN'' []
   \<and> ''57'' = environ_get sample_env ''ACCOUNT_ID'' []
   \<and> set ''arn:57:c'' \<inter> set ''CERT_ARN'' = {} \<and> set ''arn:57:c'' \<inter> set ''ACCOUNT_ID'' = {}
   \<and> set ''57'' \<inter> set ''ACCOUNT_ID'' = {}
   \<and> (\<exists>raw. field (parse_elb_log sample_env (sample_line ''-'')) ''raw_log'' = Some (JStr raw)
           \<and> \<not> sublist ''arn:57:c'' raw \<and> \<not> sublist ''57'' raw)"
proof -
  have ne: "re_match elb_pattern (normalize_line (sample_line ''-'')) \<noteq> None"
    by code_simp
  then obtain rest c where
    m: "re_match elb_pattern (normalize_line (sample_line ''-'')) = Some (rest, c)"
    by auto
  have 2: "''arn:57:c'' = environ_get sample_env ''CERT_ARN'' []"
    by (simp add: sample_env_def environ_get_def)
  have 3: "''57'' = environ_get sample_env ''ACCOUNT_ID'' []"
    by (simp add: sample_env_def environ_get_def)
  have 4: "''arn:57:c'' \<noteq> []" and 5: "''57'' \<noteq> []" by simp_all
  have 6: "set ''arn:57:c'' \<inter> set ''CERT_ARN'' = {}" by simp
  have 7: "set ''arn:57:c'' \<inter> set ''ACCOUNT_ID'' = {}" by simp
  have 8: "set ''57'' \<inter> set ''ACCOUNT_ID'' = {}" by simp
  show ?thesis
    using ne 2 3 6 7 8 C8_redaction[OF m 2 3 4 5 6 7 8] by blast
qed


section \<open>The time stamp\<close>

lemma of_char_digit:
  assumes "n < 10"
  shows "(of_char (digit_char n) :: nat) = 48 + n"
proof -
  have "list_all (\<lambda>k. (of_char (digit_char k) :: nat) = 48 + k) [0..<10]"
    by code_simp
  then show ?thesis
    using assms by (simp add: list_all_iff)
qed

lemma char_of_digit: "n < 10 \<Longrightarrow> char_of (48 + n) = digit_char n"
proof -
  assume "n < 10"
  then have "char_of (of_char (digit_char n) :: nat) = char_of (48 + n)"
    by (simp only: of_char_digit)
  then show ?thesis by simp
qed

lemma digit_char_0: "digit_char 0 = CHR ''0''"
  by (simp add: digit_char_def)

lemma digit_eq:
  assumes "n < 10"
  shows "(digit_char n = ch) = ((of_char ch :: nat) = 48 + n)"
proof
  assume "digit_char n = ch"
  then show "(of_char ch :: nat) = 48 + n" using assms of_char_digit[of n] by auto
next
  assume "(of_char ch :: nat) = 48 + n"
  then have "char_of (of_char ch :: nat) = char_of (48 + n)" by simp
  then show "digit_char n = ch" using assms by (simp add: char_of_digit)
qed

lemma is_digit_digit: "n < 10 \<Longrightarrow> is_digit (digit_char n)"
  by (simp add: is_digit_def of_char_digit)

lemma not_space_digit: "n < 10 \<Longrightarrow> \<not> is_space (digit_char n)"
  by (simp add: is_space_def of_char_digit)

lemma in_range_digit:
  "n < 10 \<Longrightarrow> cmatch (Range lo hi) (digit_char n)
     = ((of_char lo :: nat) \<le> 48 + n \<and> 48 + n \<le> (of_char hi :: nat))"
  by (simp add: of_char_digit)

lemmas digit_simps = digit_eq is_digit_digit in_range_digit of_char_digit

text \<open>The groups of the time format, each with the literal behind it.\<close>

lemma stage_Y:
  assumes "a < 10" "b < 10" "e < 10" "f < 10"
  shows "exec (R (Grp ''Y'' (Seq [Atom Digit, Atom Digit, Atom Digit, Atom Digit]))
               # R (lit CHR ''-'') # k)
           (digit_char a # digit_char b # digit_char e # digit_char f # CHR ''-'' # s) c
         = exec k s (c(''Y'' \<mapsto> [digit_char a, digit_char b, digit_char e, digit_char f]))"
  using assms by (simp add: is_digit_digit)

lemma stage_m:
  assumes "a < 10" "b < 10" "(a = 0 \<and> 1 \<le> b) \<or> (a = 1 \<and> b \<le> 2)"
    and "exec k s (c(''m'' \<mapsto> [digit_char a, digit_char b])) = Some r"
  shows "exec (R (Grp ''m'' (Alt (Seq [lit CHR ''1'', rng CHR ''0'' CHR ''2''])
                           (Alt (Seq [lit CHR ''0'', rng CHR ''1'' CHR ''9''])
                                (rng CHR ''1'' CHR ''9''))))
               # R (lit CHR ''-'') # k)
           (digit_char a # digit_char b # CHR ''-'' # s) c = Some r"
  using assms by (elim disjE conjE; simp add: digit_simps)

lemma stage_d:
  assumes "a < 10" "b < 10" "(a = 0 \<and> 1 \<le> b) \<or> a = 1 \<or> a = 2 \<or> (a = 3 \<and> b \<le> 1)"
    and "exec k s (c(''d'' \<mapsto> [digit_char a, digit_char b])) = Some r"
  shows "exec (R (Grp ''d'' (Alt (Seq [lit CHR ''3'', rng CHR ''0'' CHR ''1''])
               (Alt (Seq [rng CHR ''1'' CHR ''2'', Atom Digit])
               (Alt (Seq [lit CHR ''0'', rng CHR ''1'' CHR ''9''])
               (Alt (rng CHR ''1'' CHR ''9'')
                    (Seq [lit CHR '' '', rng CHR ''1'' CHR ''9'']))))))
               # R (Atom (Union (Chr CHR ''T'') (Chr CHR ''t''))) # k)
           (digit_char a # digit_char b # CHR ''T'' # s) c = Some r"
  using assms by (elim disjE conjE; simp add: digit_simps)

lemma stage_H:
  assumes "a < 10" "b < 10" "a \<le> 1 \<or> (a = 2 \<and> b \<le> 3)"
    and "exec k s (c(''H'' \<mapsto> [digit_char a, digit_char b])) = Some r"
  shows "exec (R (Grp ''H'' (Alt (Seq [lit CHR ''2'', rng CHR ''0'' CHR ''3''])
               (Alt (Seq [rng CHR ''0'' CHR ''1'', Atom Digit])
                    (Atom Digit))))
               # R (lit CHR '':'') # k)
           (digit_char a # digit_char b # CHR '':'' # s) c = Some r"
  using assms by (elim disjE conjE; simp add: digit_simps)

lemma stage_M:
  assumes "a < 10" "b < 10" "a \<le> 5"
    and "exec k s (c(''M'' \<mapsto> [digit_char a, digit_char b])) = Some r"
  shows "exec (R (Grp ''M'' (Alt (Seq [rng CHR ''0'' CHR ''5'', Atom Digit]) (Atom Digit)))
               # R (lit CHR '':'') # k)
           (digit_char a # digit_char b # CHR '':'' # s) c = Some r"
  using assms by (simp add: digit_simps)

lemma stage_S:
  assumes "a < 10" "b < 10" "a \<le> 5"
    and "exec k s (c(''S'' \<mapsto> [digit_char a, digit_char b])) = Some r"
  shows "exec (R (Grp ''S'' (Alt (Seq [lit CHR ''6'', rng CHR ''0'' CHR ''1''])
               (Alt (Seq [rng CHR ''0'' CHR ''5'', Atom Digit])
                    (Atom Digit))))
               # R (lit CHR ''.'') # k)
           (digit_char a # digit_char b # CHR ''.'' # s) c = Some r"
  using assms by (simp add: digit_simps)

lemma rep_digits:
  "\<forall>n \<in> set fs. n < 10 \<Longrightarrow> length fs \<le> h \<Longrightarrow> lo \<le> length fs
     \<Longrightarrow> exec k ''Z'' c = Some r
     \<Longrightarrow> exec (R (Rep (Range CHR ''0'' CHR ''9'') lo (Some h)) # k)
           (map digit_char fs @ ''Z'') c = Some r"
proof (induction fs arbitrary: lo h)
  case Nil
  then show ?case by simp
next
  case (Cons a fs)
  have "exec (R (Rep (Range CHR ''0'' CHR ''9'') (lo - 1) (Some (h - 1))) # k)
           (map digit_char fs @ ''Z'') c = Some r"
    using Cons.prems by (intro Cons.IH) auto
  then show ?case
    using Cons.prems by (simp add: digit_simps)
qed

lemma stage_f:
  assumes "\<forall>n \<in> set fs. n < 10" "fs \<noteq> []" "length fs \<le> 6"
  shows "exec [R (Grp ''f'' (Rep (Range CHR ''0'' CHR ''9'') 1 (Some 6))),
               R (Atom (Union (Chr CHR ''Z'') (Chr CHR ''z'')))]
           (map digit_char fs @ ''Z'') c
         = Some ([], c(''f'' \<mapsto> map digit_char fs))"
proof -
  have "exec [Close ''f'' (map digit_char fs @ ''Z''), R (Atom (Union (Chr CHR ''Z'') (Chr CHR ''z'')))]
          ''Z'' c = Some ([], c(''f'' \<mapsto> map digit_char fs))"
    by simp
  from rep_digits[OF assms(1) assms(3) _ this, of 1] assms(2) show ?thesis
    by (cases fs) simp_all
qed

lemma time_format_match:
  assumes y: "y1 < 10" "y2 < 10" "y3 < 10" "y4 < 10"
    and m: "m1 < 10" "m2 < 10" "(m1 = 0 \<and> 1 \<le> m2) \<or> (m1 = 1 \<and> m2 \<le> 2)"
    and d: "d1 < 10" "d2 < 10" "(d1 = 0 \<and> 1 \<le> d2) \<or> d1 = 1 \<or> d1 = 2 \<or> (d1 = 3 \<and> d2 \<le> 1)"
    and h: "h1 < 10" "h2 < 10" "h1 \<le> 1 \<or> (h1 = 2 \<and> h2 \<le> 3)"
    and n: "n1 < 10" "n2 < 10" "n1 \<le> 5"
    and s: "s1 < 10" "s2 < 10" "s1 \<le> 5"
    and f: "\<forall>n \<in> set fs. n < 10" "fs \<noteq> []" "length fs \<le> 6"
  shows "re_match time_format_regex
           ([digit_char y1, digit_char y2, digit_char y3, digit_char y4] @ ''-''
            @ [digit_char m1, digit_char m2] @ ''-'' @ [digit_char d1, digit_char d2] @ ''T''
            @ [digit_char h1, digit_char h2] @ '':'' @ [digit_char n1, digit_char n2] @ '':''
            @ [digit_char s1, digit_char s2] @ ''.'' @ map digit_char fs @ ''Z'')
         = Some ([], [''Y'' \<mapsto> [digit_char y1, digit_char y2, digit_char y3, digit_char y4],
                      ''m'' \<mapsto> [digit_char m1, digit_char m2],
                      ''d'' \<mapsto> [digit_char d1, digit_char d2],
                      ''H'' \<mapsto> [digit_char h1, digit_char h2],
                      ''M'' \<mapsto> [digit_char n1, digit_char n2],
                      ''S'' \<mapsto> [digit_char s1, digit_char s2],
                      ''f'' \<mapsto> map digit_char fs])"
  unfolding re_match_def time_format_regex_def
  apply (simp only: exec.simps(5) list.map append_Cons append_Nil append_Nil2)
  apply (subst stage_Y[OF y])
  apply (rule stage_m[OF m])
  apply (rule stage_d[OF d])
  apply (rule stage_H[OF h])
  apply (rule stage_M[OF n])
  apply (rule stage_S[OF s])
  apply (rule stage_f[OF f])
  done

lemma map_digit_zero:
  "\<forall>n \<in> set ns. n = 0 \<Longrightarrow> map digit_char ns = replicate (length ns) CHR ''0''"
  by (induction ns) (auto simp: digit_char_0)

lemma decimal_snoc: "decimal (ns @ [d]) = 10 * decimal ns + d"
  by (simp add: decimal_def)

lemma decimal_zero: "decimal ns = 0 \<longleftrightarrow> (\<forall>n \<in> set ns. n = 0)"
  by (induction ns rule: rev_induct) (auto simp: decimal_snoc decimal_def)

lemma foldl_digits:
  "\<forall>n \<in> set ns. n < 10 \<Longrightarrow>
     foldl (\<lambda>n x. 10 * n + (of_char x - 48)) a (map digit_char ns)
       = foldl (\<lambda>a n. 10 * a + n) a ns"
  by (induction ns arbitrary: a) (simp_all add: of_char_digit)

lemma py_int_digits:
  assumes "\<forall>n \<in> set ns. n < 10"
  shows "py_int (map digit_char ns) = decimal ns"
proof -
  have "dropWhile is_space (map digit_char ns) = map digit_char ns"
    using assms by (cases ns) (simp_all add: not_space_digit)
  then show ?thesis
    using foldl_digits[OF assms, of 0] by (simp add: py_int_def decimal_def)
qed

lemma str_nat_step:
  "d < 10 \<Longrightarrow> 0 < v \<Longrightarrow> str_nat (10 * v + d) = str_nat v @ [digit_char d]"
  by (subst str_nat.simps) (simp add: char_of_digit)

lemma str_nat_digit: "d < 10 \<Longrightarrow> str_nat d = [digit_char d]"
  by (subst str_nat.simps) (simp add: char_of_digit)

lemma str_nat_decimal:
  "\<forall>n \<in> set ns. n < 10 \<Longrightarrow>
     str_nat (decimal ns) =
       (if decimal ns = 0 then ''0'' else map digit_char (dropWhile (\<lambda>n. n = 0) ns))"
proof (induction ns rule: rev_induct)
  case Nil
  then show ?case using str_nat_digit[of 0] by (simp add: decimal_def digit_char_0)
next
  case (snoc d ns)
  then have d: "d < 10" and ns: "\<forall>n \<in> set ns. n < 10" by auto
  show ?case
  proof (cases "decimal ns = 0")
    case True
    then have z: "\<forall>n \<in> set ns. n = 0" by (simp add: decimal_zero)
    then have "dropWhile (\<lambda>n. n = 0) (ns @ [d]) = (if d = 0 then [] else [d])"
      by (simp add: dropWhile_append2)
    then show ?thesis
      using True d str_nat_digit[of d] by (simp add: decimal_snoc digit_char_0)
  next
    case False
    then obtain n where "n \<in> set ns" "n \<noteq> 0" by (auto simp: decimal_zero)
    then have "dropWhile (\<lambda>n. n = 0) (ns @ [d]) = dropWhile (\<lambda>n. n = 0) ns @ [d]"
      by (simp add: dropWhile_append1)
    then show ?thesis
      using False d snoc.IH[OF ns] by (simp add: decimal_snoc str_nat_step)
  qed
qed

lemma zero_pad_decimal:
  assumes "\<forall>n \<in> set ns. n < 10" and "ns \<noteq> []"
  shows "zero_pad (length ns) (decimal ns) = map digit_char ns"
proof (cases "decimal ns = 0")
  case True
  then have z: "\<forall>n \<in> set ns. n = 0" by (simp add: decimal_zero)
  have "zero_pad (length ns) (decimal ns) = replicate (length ns - 1) CHR ''0'' @ ''0''"
    using True str_nat_digit[of 0] by (simp add: zero_pad_def digit_char_0)
  also have "\<dots> = replicate (length ns) CHR ''0''"
    using assms(2) by (cases ns) (simp_all add: replicate_append_same)
  finally show ?thesis using map_digit_zero[OF z] by simp
next
  case False
  let ?z = "takeWhile (\<lambda>n. n = 0) ns" and ?r = "dropWhile (\<lambda>n. n = 0) ns"
  have s: "str_nat (decimal ns) = map digit_char ?r"
    using False str_nat_decimal[OF assms(1)] by simp
  have l: "length ns - length ?r = length ?z"
    by (metis add_diff_cancel_right' length_append takeWhile_dropWhile_id)
  have "\<forall>n \<in> set ?z. n = 0" by (auto dest: set_takeWhileD)
  then have "map digit_char ?z = replicate (length ?z) CHR ''0''"
    by (rule map_digit_zero)
  then have "zero_pad (length ns) (decimal ns) = map digit_char ?z @ map digit_char ?r"
    by (simp add: zero_pad_def s l)
  then show ?thesis
    by (metis map_append takeWhile_dropWhile_id)
qed

lemma iso_time_digits:
  assumes y: "y1 < 10" "y2 < 10" "y3 < 10" "y4 < 10"
    and m: "m1 < 10" "m2 < 10" "(m1 = 0 \<and> 1 \<le> m2) \<or> (m1 = 1 \<and> m2 \<le> 2)"
    and d: "d1 < 10" "d2 < 10" "(d1 = 0 \<and> 1 \<le> d2) \<or> d1 = 1 \<or> d1 = 2 \<or> (d1 = 3 \<and> d2 \<le> 1)"
    and h: "h1 < 10" "h2 < 10" "h1 \<le> 1 \<or> (h1 = 2 \<and> h2 \<le> 3)"
    and n: "n1 < 10" "n2 < 10" "n1 \<le> 5"
    and s: "s1 < 10" "s2 < 10" "s1 \<le> 5"
    and f: "\<forall>n \<in> set fs. n < 10" "fs \<noteq> []" "length fs \<le> 6"
  shows "iso_time_of
           ([digit_char y1, digit_char y2, digit_char y3, digit_char y4] @ ''-''
            @ [digit_char m1, digit_char m2] @ ''-'' @ [digit_char d1, digit_char d2] @ ''T''
            @ [digit_char h1, digit_char h2] @ '':'' @ [digit_char n1, digit_char n2] @ '':''
            @ [digit_char s1, digit_char s2] @ ''.'' @ map digit_char fs @ ''Z'')
         = (if 1 \<le> decimal [y1, y2, y3, y4]
               \<and> decimal [d1, d2] \<le> days_in_month (decimal [y1, y2, y3, y4]) (decimal [m1, m2])
            then [digit_char y1, digit_char y2, digit_char y3, digit_char y4] @ ''-''
              @ [digit_char m1, digit_char m2] @ ''-'' @ [digit_char d1, digit_char d2] @ ''T''
              @ [digit_char h1, digit_char h2] @ '':'' @ [digit_char n1, digit_char n2] @ '':''
              @ [digit_char s1, digit_char s2]
              @ (if \<forall>n \<in> set fs. n = 0 then []
                 else ''.'' @ map digit_char fs @ replicate (6 - length fs) CHR ''0'')
              @ ''Z''
            else [digit_char y1, digit_char y2, digit_char y3, digit_char y4] @ ''-''
              @ [digit_char m1, digit_char m2] @ ''-'' @ [digit_char d1, digit_char d2] @ ''T''
              @ [digit_char h1, digit_char h2] @ '':'' @ [digit_char n1, digit_char n2] @ '':''
              @ [digit_char s1, digit_char s2] @ ''.'' @ map digit_char fs @ ''Z'')"
proof -
  let ?us = "fs @ replicate (6 - length fs) 0"
  have us: "\<forall>n \<in> set ?us. n < 10" "length ?us = 6" "?us \<noteq> []"
    using f by auto
  have us_text: "map digit_char fs @ replicate (6 - length fs) CHR ''0'' = map digit_char ?us"
    by (simp add: digit_char_0)
  have pY: "py_int [digit_char y1, digit_char y2, digit_char y3, digit_char y4]
      = decimal [y1, y2, y3, y4]"
    using py_int_digits[of "[y1, y2, y3, y4]"] y by simp
  have p2: "\<And>a b. a < 10 \<Longrightarrow> b < 10 \<Longrightarrow> py_int [digit_char a, digit_char b] = decimal [a, b]"
    subgoal for a b using py_int_digits[of "[a, b]"] by simp
    done
  have pf: "py_int (map digit_char fs @ replicate (6 - length fs) CHR ''0'') = decimal ?us"
    unfolding us_text by (rule py_int_digits[OF us(1)])
  have sec: "decimal [s1, s2] \<le> 59"
    using s by (simp add: decimal_def)
  have parsed: "strptime
           ([digit_char y1, digit_char y2, digit_char y3, digit_char y4] @ ''-''
            @ [digit_char m1, digit_char m2] @ ''-'' @ [digit_char d1, digit_char d2] @ ''T''
            @ [digit_char h1, digit_char h2] @ '':'' @ [digit_char n1, digit_char n2] @ '':''
            @ [digit_char s1, digit_char s2] @ ''.'' @ map digit_char fs @ ''Z'')
     = (if 1 \<le> decimal [y1, y2, y3, y4]
           \<and> decimal [d1, d2] \<le> days_in_month (decimal [y1, y2, y3, y4]) (decimal [m1, m2])
        then Some \<lparr>year = decimal [y1, y2, y3, y4], month = decimal [m1, m2],
              day = decimal [d1, d2], hour = decimal [h1, h2], minute = decimal [n1, n2],
              second = decimal [s1, s2], microsecond = decimal ?us\<rparr>
        else None)"
    unfolding strptime_def time_format_match[OF y m d h n s f]
    using sec by (auto simp add: group_def Let_def pY p2 pf y m d h n s)
  have zY: "zero_pad 4 (decimal [y1, y2, y3, y4])
      = [digit_char y1, digit_char y2, digit_char y3, digit_char y4]"
    using zero_pad_decimal[of "[y1, y2, y3, y4]"] y by (simp add: eval_nat_numeral)
  have z2: "\<And>a b. a < 10 \<Longrightarrow> b < 10 \<Longrightarrow> zero_pad 2 (decimal [a, b]) = [digit_char a, digit_char b]"
    subgoal for a b using zero_pad_decimal[of "[a, b]"] by (simp add: eval_nat_numeral)
    done
  have zf: "zero_pad 6 (decimal ?us) = map digit_char fs @ replicate (6 - length fs) CHR ''0''"
    using zero_pad_decimal[OF us(1) us(3)] us(2) us_text by simp
  have zero: "decimal ?us = 0 \<longleftrightarrow> (\<forall>n \<in> set fs. n = 0)"
    by (auto simp: decimal_zero)
  show ?thesis
    unfolding iso_time_of_def parsed
    by (simp add: isoformat_def zY z2 zf zero y m d h n s del: replicate_append_same)
qed

lemma iso_time_date_time:
  assumes "y \<le> 9999" "1 \<le> m" "m \<le> 12" "1 \<le> d" "d \<le> 31" "h \<le> 23" "mi \<le> 59" "s \<le> 59"
    and f: "fs \<noteq> []" "length fs \<le> 6" "\<forall>n \<in> set fs. n < 10"
  shows "iso_time_of (date_time y m d h mi s @ ''.'' @ map digit_char fs @ ''Z'')
         = (if 1 \<le> y \<and> d \<le> days_in_month y m
            then date_time y m d h mi s
              @ (if \<forall>n \<in> set fs. n = 0 then []
                 else ''.'' @ map digit_char fs @ replicate (6 - length fs) CHR ''0'')
              @ ''Z''
            else date_time y m d h mi s @ ''.'' @ map digit_char fs @ ''Z'')"
proof -
  have two: "\<And>v. decimal [v div 10, v mod 10] = v"
    by (simp add: decimal_def)
  have Y: "decimal [y div 100 div 10, y div 100 mod 10, y mod 100 div 10, y mod 100 mod 10] = y"
  proof -
    have "decimal [y div 100 div 10, y div 100 mod 10, y mod 100 div 10, y mod 100 mod 10]
        = 100 * decimal [y div 100 div 10, y div 100 mod 10]
          + decimal [y mod 100 div 10, y mod 100 mod 10]"
      by (simp add: decimal_def)
    then show ?thesis unfolding two by simp
  qed
  have "y div 100 < 100"
    using assms(1) by (intro less_mult_imp_div_less) simp
  then have y: "y div 100 div 10 < 10" "y div 100 mod 10 < 10" "y mod 100 div 10 < 10"
      "y mod 100 mod 10 < 10"
    by (simp_all add: less_mult_imp_div_less)
  have m: "m div 10 < 10" "m mod 10 < 10"
      "(m div 10 = 0 \<and> 1 \<le> m mod 10) \<or> (m div 10 = 1 \<and> m mod 10 \<le> 2)"
    using assms(2,3) by presburger+
  have d: "d div 10 < 10" "d mod 10 < 10"
      "(d div 10 = 0 \<and> 1 \<le> d mod 10) \<or> d div 10 = 1 \<or> d div 10 = 2
         \<or> (d div 10 = 3 \<and> d mod 10 \<le> 1)"
    using assms(4,5) by presburger+
  have h: "h div 10 < 10" "h mod 10 < 10" "h div 10 \<le> 1 \<or> (h div 10 = 2 \<and> h mod 10 \<le> 3)"
    using assms(6) by presburger+
  have n: "mi div 10 < 10" "mi mod 10 < 10" "mi div 10 \<le> 5"
    using assms(7) by presburger+
  have s: "s div 10 < 10" "s mod 10 < 10" "s div 10 \<le> 5"
    using assms(8) by presburger+
  show ?thesis
    using iso_time_digits[OF y m d h n s f(3) f(1) f(2)]
    unfolding Y two date_time_def four_digits_def two_digits_def by (simp only: append_Cons append_Nil)
qed

lemma accepts_seq_first:
  "accepts_seq (Grp n (Seq (Atom cs # rs')) # rs) w \<Longrightarrow> \<exists>x t. w = x # t \<and> cmatch cs x"
  by auto

lemma time_format_starts_digit: "accepts time_format_regex w \<Longrightarrow> starts_digit w"
  unfolding time_format_regex_def accepts.simps(3)
  by (drule accepts_seq_first) (auto simp: starts_digit_def)

lemma strptime_accepts:
  assumes "strptime tm = Some t"
  shows "accepts time_format_regex tm"
proof -
  from assms obtain c where "re_match time_format_regex tm = Some ([], c)"
    by (auto simp: strptime_def split: option.splits if_splits)
  from exec_accepts[OF this[unfolded re_match_def]] show ?thesis
    by auto
qed

text \<open>
  Claim C6: for every line that matches the grammar, with the time token \<open>tm\<close>, the parser
  returns a record, and its \<open>_time\<close> is the ISO format of the parsed time followed by \<open>Z\<close>
  when \<open>strptime\<close> accepts the token, and the token unchanged when it does not.
  For every token in the format of the log (a year of four digits, month, day, hour,
  minute and second of two digits, one to six digits of a fraction, and \<open>Z\<close>) that
  names a day of the calendar, \<open>_time\<close> is the same date and time, followed by the
  fraction filled to six digits, or by nothing when the fraction is zero, and \<open>Z\<close>: a token
  with a fraction of six digits that is not zero is mapped to itself.  A token of this
  form that names no day of the calendar, and every token that is not a text of the format
  at all, is passed through unchanged.  The token \<open>2023-01-15T10:30:00.123456Z\<close> is
  mapped to itself and \<open>not-a-time\<close> is passed through.
\<close>

theorem C6_timestamp:
  assumes "re_match elb_pattern (normalize_line line) = Some (rest, c)"
    and "c ''time'' = Some tm"
  shows "field (parse_elb_log env line) ''_time''
           = Some (JStr (case strptime tm of Some t \<Rightarrow> isoformat t @ ''Z'' | None \<Rightarrow> tm))
         \<and> (\<forall>y m d h mi s fs.
               y \<le> 9999 \<and> 1 \<le> m \<and> m \<le> 12 \<and> 1 \<le> d \<and> d \<le> 31 \<and> h \<le> 23 \<and> mi \<le> 59 \<and> s \<le> 59
               \<and> fs \<noteq> [] \<and> length fs \<le> 6 \<and> (\<forall>n \<in> set fs. n < 10)
               \<and> tm = date_time y m d h mi s @ ''.'' @ map digit_char fs @ ''Z''
               \<longrightarrow> field (parse_elb_log env line) ''_time''
                     = Some (JStr
                         (if 1 \<le> y \<and> d \<le> days_in_month y m
                          then date_time y m d h mi s
                            @ (if \<forall>n \<in> set fs. n = 0 then []
                               else ''.'' @ map digit_char fs
                                    @ replicate (6 - length fs) CHR ''0'')
                            @ ''Z''
                          else tm)))
         \<and> (\<not> accepts time_format_regex tm
               \<longrightarrow> field (parse_elb_log env line) ''_time'' = Some (JStr tm))
         \<and> iso_time_of ''2023-01-15T10:30:00.123456Z'' = ''2023-01-15T10:30:00.123456Z''
         \<and> strptime ''2023-01-15T10:30:00.123456Z'' \<noteq> None
         \<and> strptime ''not-a-time'' = None
         \<and> iso_time_of ''not-a-time'' = ''not-a-time''"
proof -
  from parse_matched[OF assms(1), of env] assms(2) obtain cp tp arn where
    "parse_elb_log env line =
       Inr ((''_time'', JStr (iso_time_of tm))
            # map (\<lambda>(key, v). (key, JStr v))
                (fields env (normalize_line line) (groupdict elb_pattern c) cp tp arn))"
    by auto
  then have t: "field (parse_elb_log env line) ''_time'' = Some (JStr (iso_time_of tm))"
    by (simp add: field_def)
  have 1: "field (parse_elb_log env line) ''_time''
           = Some (JStr (case strptime tm of Some t \<Rightarrow> isoformat t @ ''Z'' | None \<Rightarrow> tm))"
    using t by (simp add: iso_time_of_def)
  have 2: "\<forall>y m d h mi s fs.
               y \<le> 9999 \<and> 1 \<le> m \<and> m \<le> 12 \<and> 1 \<le> d \<and> d \<le> 31 \<and> h \<le> 23 \<and> mi \<le> 59 \<and> s \<le> 59
               \<and> fs \<noteq> [] \<and> length fs \<le> 6 \<and> (\<forall>n \<in> set fs. n < 10)
               \<and> tm = date_time y m d h mi s @ ''.'' @ map digit_char fs @ ''Z''
               \<longrightarrow> field (parse_elb_log env line) ''_time''
                     = Some (JStr
                         (if 1 \<le> y \<and> d \<le> days_in_month y m
                          then date_time y m d h mi s
                            @ (if \<forall>n \<in> set fs. n = 0 then []
                               else ''.'' @ map digit_char fs
                                    @ replicate (6 - length fs) CHR ''0'')
                            @ ''Z''
                          else tm))"
  proof (intro allI impI, elim conjE)
    fix y m d h mi s fs
    assume a: "y \<le> 9999" "1 \<le> m" "m \<le> 12" "1 \<le> d" "d \<le> 31" "h \<le> 23" "mi \<le> 59"
      "s \<le> 59" "fs \<noteq> []" "length fs \<le> 6" "\<forall>n \<in> set fs. n < 10"
      and tm: "tm = date_time y m d h mi s @ ''.'' @ map digit_char fs @ ''Z''"
    show "field (parse_elb_log env line) ''_time''
                     = Some (JStr
                         (if 1 \<le> y \<and> d \<le> days_in_month y m
                          then date_time y m d h mi s
                            @ (if \<forall>n \<in> set fs. n = 0 then []
                               else ''.'' @ map digit_char fs
                                    @ replicate (6 - length fs) CHR ''0'')
                            @ ''Z''
                          else tm))"
      unfolding t unfolding tm iso_time_date_time[OF a] by simp
  qed
  have 3: "\<not> accepts time_format_regex tm
             \<longrightarrow> field (parse_elb_log env line) ''_time'' = Some (JStr tm)"
    unfolding t using strptime_accepts[of tm] by (cases "strptime tm") (auto simp: iso_time_of_def)
  have p: "strptime ''2023-01-15T10:30:00.123456Z''
      = Some \<lparr>year = 2023, month = 1, day = 15, hour = 10, minute = 30, second = 0,
               microsecond = 123456\<rparr>"
    by code_simp
  have f: "isoformat \<lparr>year = 2023, month = 1, day = 15, hour = 10, minute = 30,
      second = 0, microsecond = 123456\<rparr> = ''2023-01-15T10:30:00.123456''"
    by code_simp
  have n: "strptime ''not-a-time'' = None"
    by code_simp
  have 4: "iso_time_of ''2023-01-15T10:30:00.123456Z'' = ''2023-01-15T10:30:00.123456Z''
         \<and> strptime ''2023-01-15T10:30:00.123456Z'' \<noteq> None
         \<and> strptime ''not-a-time'' = None
         \<and> iso_time_of ''not-a-time'' = ''not-a-time''"
    using p f n by (simp add: iso_time_of_def)
  show ?thesis
    by (rule conjI[OF 1 conjI[OF 2 conjI[OF 3 4]]])
qed

theorem C6_witness:
  "field (parse_elb_log sample_env (sample_line ''2023-01-15T10:30:00.123456Z'')) ''_time''
     = Some (JStr ''2023-01-15T10:30:00.123456Z'')
   \<and> field (parse_elb_log sample_env (sample_line ''2024-02-29T23:59:59.5Z'')) ''_time''
     = Some (JStr ''2024-02-29T23:59:59.500000Z'')
   \<and> field (parse_elb_log sample_env (sample_line ''2023-01-15T10:30:00.000Z'')) ''_time''
     = Some (JStr ''2023-01-15T10:30:00Z'')
   \<and> field (parse_elb_log sample_env (sample_line ''2023-02-30T10:30:00.123456Z'')) ''_time''
     = Some (JStr ''2023-02-30T10:30:00.123456Z'')
   \<and> \<not> accepts time_format_regex ''not-a-time''
   \<and> field (parse_elb_log sample_env (sample_line ''not-a-time'')) ''_time''
     = Some (JStr ''not-a-time'')"
proof -
  have five: "replicate 5 CHR ''0'' = ''00000''"
    by (simp add: eval_nat_numeral)
  have "map_option (\<lambda>(rest, c). c ''time'')
          (re_match elb_pattern (normalize_line (sample_line ''2023-01-15T10:30:00.123456Z'')))
        = Some (Some ''2023-01-15T10:30:00.123456Z'')"
    by code_simp
  then obtain rest1 c1 where
    m1: "re_match elb_pattern (normalize_line (sample_line ''2023-01-15T10:30:00.123456Z'')) = Some (rest1, c1)"
    and t1: "c1 ''time'' = Some ''2023-01-15T10:30:00.123456Z''"
    by auto
  have r1: "field (parse_elb_log sample_env (sample_line ''2023-01-15T10:30:00.123456Z'')) ''_time''
      = Some (JStr ''2023-01-15T10:30:00.123456Z'')"
    using C6_timestamp[OF m1 t1, of sample_env, THEN conjunct2, THEN conjunct1, rule_format,
        of 2023 1 15 10 30 0 "[1, 2, 3, 4, 5, 6]"]
    by (simp add: date_time_def four_digits_def two_digits_def digit_char_def
        days_in_month_def is_leap_def five)
  have "map_option (\<lambda>(rest, c). c ''time'')
          (re_match elb_pattern (normalize_line (sample_line ''2024-02-29T23:59:59.5Z'')))
        = Some (Some ''2024-02-29T23:59:59.5Z'')"
    by code_simp
  then obtain rest2 c2 where
    m2: "re_match elb_pattern (normalize_line (sample_line ''2024-02-29T23:59:59.5Z'')) = Some (rest2, c2)"
    and t2: "c2 ''time'' = Some ''2024-02-29T23:59:59.5Z''"
    by auto
  have r2: "field (parse_elb_log sample_env (sample_line ''2024-02-29T23:59:59.5Z'')) ''_time''
      = Some (JStr ''2024-02-29T23:59:59.500000Z'')"
    using C6_timestamp[OF m2 t2, of sample_env, THEN conjunct2, THEN conjunct1, rule_format,
        of 2024 2 29 23 59 59 "[5]"]
    by (simp add: date_time_def four_digits_def two_digits_def digit_char_def
        days_in_month_def is_leap_def five)
  have "map_option (\<lambda>(rest, c). c ''time'')
          (re_match elb_pattern (normalize_line (sample_line ''2023-01-15T10:30:00.000Z'')))
        = Some (Some ''2023-01-15T10:30:00.000Z'')"
    by code_simp
  then obtain rest3 c3 where
    m3: "re_match elb_pattern (normalize_line (sample_line ''2023-01-15T10:30:00.000Z'')) = Some (rest3, c3)"
    and t3: "c3 ''time'' = Some ''2023-01-15T10:30:00.000Z''"
    by auto
  have r3: "field (parse_elb_log sample_env (sample_line ''2023-01-15T10:30:00.000Z'')) ''_time''
      = Some (JStr ''2023-01-15T10:30:00Z'')"
    using C6_timestamp[OF m3 t3, of sample_env, THEN conjunct2, THEN conjunct1, rule_format,
        of 2023 1 15 10 30 0 "[0, 0, 0]"]
    by (simp add: date_time_def four_digits_def two_digits_def digit_char_def
        days_in_month_def is_leap_def five)
  have "map_option (\<lambda>(rest, c). c ''time'')
          (re_match elb_pattern (normalize_line (sample_line ''2023-02-30T10:30:00.123456Z'')))
        = Some (Some ''2023-02-30T10:30:00.123456Z'')"
    by code_simp
  then obtain rest4 c4 where
    m4: "re_match elb_pattern (normalize_line (sample_line ''2023-02-30T10:30:00.123456Z'')) = Some (rest4, c4)"
    and t4: "c4 ''time'' = Some ''2023-02-30T10:30:00.123456Z''"
    by auto
  have r4: "field (parse_elb_log sample_env (sample_line ''2023-02-30T10:30:00.123456Z'')) ''_time''
      = Some (JStr ''2023-02-30T10:30:00.123456Z'')"
    using C6_timestamp[OF m4 t4, of sample_env, THEN conjunct2, THEN conjunct1, rule_format,
        of 2023 2 30 10 30 0 "[1, 2, 3, 4, 5, 6]"]
    by (simp add: date_time_def four_digits_def two_digits_def digit_char_def
        days_in_month_def is_leap_def five)
  have "map_option (\<lambda>(rest, c). c ''time'')
          (re_match elb_pattern (normalize_line (sample_line ''not-a-time'')))
        = Some (Some ''not-a-time'')"
    by code_simp
  then obtain rest5 c5 where
    m5: "re_match elb_pattern (normalize_line (sample_line ''not-a-time'')) = Some (rest5, c5)"
    and t5: "c5 ''time'' = Some ''not-a-time''"
    by auto
  have n: "\<not> accepts time_format_regex ''not-a-time''"
    using time_format_starts_digit[of "''not-a-time''"]
    by (auto simp: starts_digit_def is_digit_def)
  have r5: "field (parse_elb_log sample_env (sample_line ''not-a-time'')) ''_time''
      = Some (JStr ''not-a-time'')"
    using C6_timestamp[OF m5 t5, of sample_env, THEN conjunct2, THEN conjunct2, THEN conjunct1] n
    by simp
  show ?thesis
    by (rule conjI[OF r1 conjI[OF r2 conjI[OF r3 conjI[OF r4 conjI[OF n r5]]]]])
qed

end
